theory Spec2Isabelle
  imports Complex_Main "HOL-Library.AList"
begin

text \<open>
  A model of the diagram module of diagramatics: the classes \<open>Diagram\<close> and \<open>Path\<close> and the
  function \<open>polygon\<close>. Diagrams are modelled twice: as values (a tree), on which the results of
  the methods are stated, and as objects in a store, on which it is shown that the methods
  compute these values and change no object they were given.
\<close>

section \<open>Numbers\<close>

text \<open>
  A JavaScript number is an IEEE 754 double: \<open>NaN\<close>, an infinity, or a finite value. A finite
  value is kept as the real number it stands for, and every arithmetic operation rounds its
  exact result to the nearest double, ties to even (\<open>double\<close>): the result is scaled into the
  53 bits of a significand (or to the least exponent \<open>-1074\<close>), rounded to an integer and
  scaled back; from \<open>2^1024\<close> on it is an infinity. The model has one zero: the operations
  used here send \<open>-0\<close> and \<open>+0\<close> to results that \<open>===\<close> does not tell apart.
\<close>

datatype number = NaN | NegInfinity | Finite real | Infinity

function scale_down :: "real \<Rightarrow> int \<Rightarrow> real \<times> int" where
  "scale_down a e = (if 2 ^ 53 \<le> a then scale_down (a / 2) (e + 1) else (a, e))"
  by pat_completeness auto
termination
proof (relation "measure (\<lambda>(a, e). nat \<lfloor>a\<rfloor>)")
  show "wf (measure (\<lambda>(a :: real, e :: int). nat \<lfloor>a\<rfloor>))" by simp
next
  fix a :: real and e :: int
  assume a: "2 ^ 53 \<le> a"
  then have "a / 2 \<le> a - 1" by simp
  then have "\<lfloor>a / 2\<rfloor> \<le> \<lfloor>a - 1\<rfloor>" by (rule floor_mono)
  moreover have "1 \<le> \<lfloor>a\<rfloor>" using a by (simp add: le_floor_iff)
  ultimately show "((a / 2, e + 1), (a, e)) \<in> measure (\<lambda>(a, e). nat \<lfloor>a\<rfloor>)"
    by simp
qed

function scale_up :: "real \<Rightarrow> int \<Rightarrow> real \<times> int" where
  "scale_up a e = (if a < 2 ^ 52 \<and> - 1074 < e then scale_up (a * 2) (e - 1) else (a, e))"
  by pat_completeness auto
termination
  by (relation "measure (\<lambda>(a, e). nat (e + 1074))") auto

declare scale_down.simps [simp del] scale_up.simps [simp del]

definition pow2 :: "int \<Rightarrow> real" where
  "pow2 e = (if 0 \<le> e then 2 ^ nat e else 1 / 2 ^ nat (- e))"

definition round_even :: "real \<Rightarrow> int" where
  "round_even a =
     (let f = \<lfloor>a\<rfloor>; r = a - of_int f
      in if r < 1 / 2 then f else if 1 / 2 < r then f + 1 else if even f then f else f + 1)"

definition double :: "real \<Rightarrow> number" where
  "double x =
     (if x = 0 then Finite 0
      else (case scale_down \<bar>x\<bar> 0 of (a1, e1) \<Rightarrow>
              (case scale_up a1 e1 of (a2, e2) \<Rightarrow>
                 (let y = of_int (round_even a2) * pow2 e2
                  in if 2 ^ 1024 \<le> y then (if x < 0 then NegInfinity else Infinity)
                     else Finite (if x < 0 then - y else y)))))"

definition is_double :: "real \<Rightarrow> bool" where
  "is_double x \<longleftrightarrow> double x = Finite x"

text \<open>
  Addition, subtraction and multiplication of numbers, \<open>Math.min\<close>, \<open>Math.max\<close>, and
  \<open>Math.cos\<close> and \<open>Math.sin\<close> taken as correctly rounded.
\<close>

fun number_neg :: "number \<Rightarrow> number" where
  "number_neg NaN = NaN"
| "number_neg NegInfinity = Infinity"
| "number_neg (Finite a) = Finite (- a)"
| "number_neg Infinity = NegInfinity"

fun number_add :: "number \<Rightarrow> number \<Rightarrow> number" where
  "number_add NaN b = NaN"
| "number_add a NaN = NaN"
| "number_add Infinity NegInfinity = NaN"
| "number_add NegInfinity Infinity = NaN"
| "number_add Infinity b = Infinity"
| "number_add a Infinity = Infinity"
| "number_add NegInfinity b = NegInfinity"
| "number_add a NegInfinity = NegInfinity"
| "number_add (Finite a) (Finite b) = double (a + b)"

definition number_sub :: "number \<Rightarrow> number \<Rightarrow> number" where
  "number_sub a b = number_add a (number_neg b)"

fun sign_of :: "number \<Rightarrow> int" where
  "sign_of NaN = 0"
| "sign_of NegInfinity = - 1"
| "sign_of (Finite a) = sgn \<lfloor>sgn a\<rfloor>"
| "sign_of Infinity = 1"

fun number_mul :: "number \<Rightarrow> number \<Rightarrow> number" where
  "number_mul NaN b = NaN"
| "number_mul a NaN = NaN"
| "number_mul (Finite a) (Finite b) = double (a * b)"
| "number_mul a b =
     (if sign_of a * sign_of b = 0 then NaN
      else if 0 < sign_of a * sign_of b then Infinity else NegInfinity)"

fun Math_min :: "number \<Rightarrow> number \<Rightarrow> number" where
  "Math_min NaN b = NaN"
| "Math_min a NaN = NaN"
| "Math_min NegInfinity b = NegInfinity"
| "Math_min a NegInfinity = NegInfinity"
| "Math_min Infinity b = b"
| "Math_min a Infinity = a"
| "Math_min (Finite a) (Finite b) = Finite (min a b)"

fun Math_max :: "number \<Rightarrow> number \<Rightarrow> number" where
  "Math_max NaN b = NaN"
| "Math_max a NaN = NaN"
| "Math_max Infinity b = Infinity"
| "Math_max a Infinity = Infinity"
| "Math_max NegInfinity b = b"
| "Math_max a NegInfinity = a"
| "Math_max (Finite a) (Finite b) = Finite (max a b)"

fun Math_cos :: "number \<Rightarrow> number" where
  "Math_cos (Finite a) = double (cos a)"
| "Math_cos a = NaN"

fun Math_sin :: "number \<Rightarrow> number" where
  "Math_sin (Finite a) = double (sin a)"
| "Math_sin a = NaN"

section \<open>Vectors\<close>

text \<open>
  The two fields of a vector hold numbers; in a vector read back by \<open>JSON.parse\<close> a field can
  also hold \<open>null\<close>, which is what \<open>JSON.stringify\<close> writes for \<open>NaN\<close> and the infinities.
  Arithmetic takes \<open>null\<close> for \<open>0\<close> (\<open>to_number\<close>).
\<close>

datatype coordinate = Null | Num number

fun to_number :: "coordinate \<Rightarrow> number" where
  "to_number Null = Finite 0"
| "to_number (Num n) = n"

fun JSON_number :: "coordinate \<Rightarrow> coordinate" where
  "JSON_number (Num (Finite a)) = Num (Finite a)"
| "JSON_number c = Null"

datatype 'n Vector2 = Vector2 (vx: 'n) (vy: 'n)

definition V2 :: "real \<Rightarrow> real \<Rightarrow> coordinate Vector2" where
  "V2 x y = Vector2 (Num (Finite x)) (Num (Finite y))"

definition JSON_Vector2 :: "coordinate Vector2 \<Rightarrow> coordinate Vector2" where
  "JSON_Vector2 v = Vector2 (JSON_number (vx v)) (JSON_number (vy v))"

text \<open>
  Modelled from the spec: class \<open>Vector2\<close> of \<open>linear_algebra.js\<close> is imported by the diagram
  module but is not among the sources. The spec describes it as an immutable 2D value type
  \<open>{x: float, y: float}\<close> with the standard operations add, subtract, scale and
  rotate-about-origin; every operation returns a new vector, computed field by field with the
  arithmetic of numbers. The rotation is the usual counter-clockwise one.
\<close>

definition Vector2_add :: "coordinate Vector2 \<Rightarrow> coordinate Vector2 \<Rightarrow> coordinate Vector2" where
  "Vector2_add a v =
     Vector2 (Num (number_add (to_number (vx a)) (to_number (vx v))))
             (Num (number_add (to_number (vy a)) (to_number (vy v))))"

definition Vector2_sub :: "coordinate Vector2 \<Rightarrow> coordinate Vector2 \<Rightarrow> coordinate Vector2" where
  "Vector2_sub a v =
     Vector2 (Num (number_sub (to_number (vx a)) (to_number (vx v))))
             (Num (number_sub (to_number (vy a)) (to_number (vy v))))"

definition Vector2_scale :: "coordinate Vector2 \<Rightarrow> number \<Rightarrow> coordinate Vector2" where
  "Vector2_scale a s =
     Vector2 (Num (number_mul (to_number (vx a)) s)) (Num (number_mul (to_number (vy a)) s))"

definition Vector2_rotate :: "coordinate Vector2 \<Rightarrow> number \<Rightarrow> coordinate Vector2" where
  "Vector2_rotate a angle =
     (let x = to_number (vx a); y = to_number (vy a);
          c = Math_cos angle; s = Math_sin angle
      in Vector2 (Num (number_sub (number_mul x c) (number_mul y s)))
                 (Num (number_add (number_mul x s) (number_mul y c))))"

section \<open>Errors\<close>

text \<open>
  Every failure of the module is a JavaScript exception. \<open>Error msg\<close> is \<open>throw new Error(msg)\<close>
  (also through \<open>assert\<close>); \<open>TypeError\<close> is the exception the runtime raises when a method is
  called on \<open>undefined\<close>.
\<close>

datatype error = Error string | TypeError

definition assert :: "bool \<Rightarrow> string \<Rightarrow> error + unit" where
  "assert condition message =
     (if \<not> condition then Inl (Error (if message = [] then ''Assertion failed'' else message))
      else Inr ())"

section \<open>Paths\<close>

datatype Path = Path (points: "coordinate Vector2 list")

definition get_parametric_point :: "Path \<Rightarrow> number \<Rightarrow> error + coordinate Vector2" where
  "get_parametric_point this t =
     (if length (points this) > 2
      then Inl (Error ''Get Parametric Point For n>2 is Not Implemented yet'')
      else (case points this of
              [] \<Rightarrow> Inl TypeError
            | start # rest \<Rightarrow>
                (let end = last (points this);
                     dir = Vector2_sub end start
                 in Inr (Vector2_add start (Vector2_scale dir t)))))"

definition Path_copy :: "Path \<Rightarrow> Path" where
  "Path_copy this = Path (map (\<lambda>p. Vector2 (vx p) (vy p)) (points this))"

definition Path_translate :: "Path \<Rightarrow> coordinate Vector2 \<Rightarrow> Path" where
  "Path_translate this v =
     (let newp = Path_copy this in Path (map (\<lambda>p. Vector2_add p v) (points newp)))"

definition Path_rotate :: "Path \<Rightarrow> number \<Rightarrow> coordinate Vector2 \<Rightarrow> Path" where
  "Path_rotate this angle pivot =
     (let newp = Path_copy this
      in Path (map (\<lambda>p. Vector2_add (Vector2_rotate (Vector2_sub p pivot) angle) pivot)
                 (points newp)))"

definition JSON_Path :: "Path \<Rightarrow> Path" where
  "JSON_Path p = Path (map JSON_Vector2 (points p))"

section \<open>Dictionaries\<close>

text \<open>
  A dictionary is a JavaScript object used as a map from names to objects. Its own entries are
  an association list in the order in which \<open>for ... in\<close> visits them: the names that are array
  indices (\<open>"0"\<close>, \<open>"1"\<close>, ... below \<open>2^32 - 1\<close>, written without leading zeros) in ascending
  order, then the other names in the order in which they were first stored. A store
  \<open>dict[name] = object\<close> replaces the value of an own entry of that name; for a new name it adds
  an entry, except that the new name \<open>"__proto__"\<close> adds no entry and makes the object the
  prototype of the dictionary instead. \<open>store_property\<close> keeps the own entries together with
  the prototype that has been set, if any.
\<close>

definition digit :: "nat \<Rightarrow> char" where
  "digit n = char_of (48 + n)"

fun toString :: "nat \<Rightarrow> string" where
  "toString n = (if n < 10 then [digit n] else toString (n div 10) @ [digit (n mod 10)])"

declare toString.simps [simp del]

definition digit_value :: "char \<Rightarrow> nat option" where
  "digit_value c =
     (if 48 \<le> (of_char c :: nat) \<and> (of_char c :: nat) \<le> 57 then Some (of_char c - 48) else None)"

fun decimal :: "nat \<Rightarrow> string \<Rightarrow> nat option" where
  "decimal n [] = Some n"
| "decimal n (c # cs) =
     (case digit_value c of None \<Rightarrow> None | Some d \<Rightarrow> decimal (10 * n + d) cs)"

definition array_index :: "string \<Rightarrow> nat option" where
  "array_index name =
     (case decimal 0 name of
        None \<Rightarrow> None
      | Some n \<Rightarrow> if toString n = name \<and> n < 4294967295 then Some n else None)"

fun insert_index :: "nat \<Rightarrow> string \<times> 'v \<Rightarrow> (string \<times> 'v) list \<Rightarrow> (string \<times> 'v) list" where
  "insert_index n e [] = [e]"
| "insert_index n e (x # xs) =
     (case array_index (fst x) of
        None \<Rightarrow> e # x # xs
      | Some m \<Rightarrow> if m < n then x # insert_index n e xs else e # x # xs)"

definition insert_property :: "string \<Rightarrow> 'v \<Rightarrow> (string \<times> 'v) list \<Rightarrow> (string \<times> 'v) list" where
  "insert_property name v al =
     (case array_index name of
        None \<Rightarrow> al @ [(name, v)]
      | Some n \<Rightarrow> insert_index n (name, v) al)"

definition store_property ::
  "string \<Rightarrow> 'v \<Rightarrow> (string \<times> 'v) list \<times> 'v option \<Rightarrow> (string \<times> 'v) list \<times> 'v option" where
  "store_property name v dict =
     (case dict of (al, proto) \<Rightarrow>
        if name \<in> fst ` set al then (AList.update name v al, proto)
        else if name = ''__proto__'' then (al, Some v)
        else (insert_property name v al, proto))"

text \<open>
  \<open>names[i]\<close> beyond the end of \<open>names\<close> is \<open>undefined\<close>, and \<open>undefined\<close> used as a property
  name is the string \<open>"undefined"\<close>.
\<close>

definition property_name :: "string list \<Rightarrow> nat \<Rightarrow> string" where
  "property_name names i = (if i < length names then names ! i else ''undefined'')"

section \<open>Diagrams as values\<close>

text \<open>
  A diagram object is a tree. A value of type \<open>Diagram\<close> is a diagram whose two dictionaries
  have the prototype every object starts with: the state that the constructor, \<open>copy\<close> and
  every method that starts with a copy leave. A loop \<open>for (let c in dict)\<close> then visits the own
  entries, each once, and a loop that replaces the value of every visited name is the map over
  the entries. \<open>add_childs\<close> and \<open>add_paths\<close> can set another prototype; they return it next to
  the diagram.
\<close>

datatype DiagramType = Polygon | Curve | Diagram

datatype Diagram = MkDiagram
  (type: DiagramType)
  (children: "(string \<times> Diagram) list")
  (paths: "(string \<times> Path) list")
  (origin: "coordinate Vector2")
  (color_stroke: "string option")
  (color_fill: "string option")

definition new_Diagram :: "DiagramType \<Rightarrow> Diagram" where
  "new_Diagram ty = MkDiagram ty [] [] (V2 0 0) None None"

definition add_childs ::
  "Diagram \<Rightarrow> Diagram list \<Rightarrow> string list \<Rightarrow> Diagram \<times> Diagram option" where
  "add_childs this childs names =
     (case this of MkDiagram ty ch pa og cs cf \<Rightarrow>
        (case fold (\<lambda>i. store_property (property_name names i) (childs ! i))
                [0..<length childs] (ch, None) of
           (ch', proto) \<Rightarrow> (MkDiagram ty ch' pa og cs cf, proto)))"

definition add_paths ::
  "Diagram \<Rightarrow> Path list \<Rightarrow> string list \<Rightarrow> error + Diagram \<times> Path option" where
  "add_paths this paths' names =
     (case this of MkDiagram ty ch pa og cs cf \<Rightarrow>
        if ty = Diagram then Inl (Error ''Diagram cannot have paths'')
        else (case fold (\<lambda>i. store_property (property_name names i) (paths' ! i))
                     [0..<length paths'] (pa, None) of
                (pa', proto) \<Rightarrow> Inr (MkDiagram ty ch pa' og cs cf, proto)))"

text \<open>
  \<open>JSON.parse(JSON.stringify(this))\<close> keeps the tree, its names, types and colours (a colour
  that is \<open>undefined\<close> is left out and read back as \<open>undefined\<close>) and every finite number, and
  turns every other number into \<open>null\<close>. \<open>copy\<close> then copies every child and every path of
  the result again.
\<close>

primrec JSON_roundtrip :: "Diagram \<Rightarrow> Diagram" where
  "JSON_roundtrip (MkDiagram ty ch pa og cs cf) =
     MkDiagram ty (map (map_prod id JSON_roundtrip) ch) (map (map_prod id JSON_Path) pa)
       (JSON_Vector2 og) cs cf"

lemma size_list_map_same:
  "(\<And>x. x \<in> set xs \<Longrightarrow> f (g x) = f x) \<Longrightarrow> size_list f (map g xs) = size_list f xs"
  by (induction xs) auto

lemma size_JSON_roundtrip [simp]: "size (JSON_roundtrip d) = size d"
proof (induction d)
  case (MkDiagram ty ch pa og cs cf)
  have "size_list (size_prod (\<lambda>x. 0) size) (map (map_prod id JSON_roundtrip) ch)
      = size_list (size_prod (\<lambda>x. 0) size) ch"
  proof (rule size_list_map_same)
    fix c assume "c \<in> set ch"
    with MkDiagram show "size_prod (\<lambda>x. 0) size (map_prod id JSON_roundtrip c) = size_prod (\<lambda>x. 0) size c"
      by (cases c) (auto simp: snds.simps)
  qed
  then show ?case by simp
qed

lemma child_smaller: "c \<in> set ch \<Longrightarrow> size (snd c) < size (MkDiagram ty ch pa og cs cf)"
  by (induction ch) (auto simp: less_Suc_eq_le)

lemma child_of_JSON_roundtrip [termination_simp]:
  "JSON_roundtrip this = MkDiagram ty ch pa og cs cf \<Longrightarrow> c \<in> set ch \<Longrightarrow> size (snd c) < size this"
  using child_smaller[of c ch ty pa og cs cf] size_JSON_roundtrip[of this] by simp

fun copy :: "Diagram \<Rightarrow> Diagram" where
  "copy this =
     (case JSON_roundtrip this of MkDiagram ty ch pa og cs cf \<Rightarrow>
        MkDiagram ty
          (map (\<lambda>c. (fst c, copy (snd c))) ch)
          (map (\<lambda>p. (fst p, Path_copy (snd p))) pa)
          (Vector2 (vx og) (vy og)) cs cf)"

declare copy.simps [simp del]

lemma Path_copy_id [simp]: "Path_copy p = p"
  by (cases p) (simp add: Path_copy_def map_idI)

lemma JSON_number_twice [simp]: "JSON_number (JSON_number c) = JSON_number c"
  by (cases c rule: JSON_number.cases) simp_all

lemma JSON_Vector2_twice [simp]: "JSON_Vector2 (JSON_Vector2 v) = JSON_Vector2 v"
  by (simp add: JSON_Vector2_def)

lemma JSON_Path_twice [simp]: "JSON_Path (JSON_Path p) = JSON_Path p"
  by (simp add: JSON_Path_def)

lemma JSON_roundtrip_twice [simp]: "JSON_roundtrip (JSON_roundtrip d) = JSON_roundtrip d"
proof (induction d)
  case (MkDiagram ty ch pa og cs cf)
  have "map (map_prod id JSON_roundtrip \<circ> map_prod id JSON_roundtrip) ch
      = map (map_prod id JSON_roundtrip) ch"
    by (rule map_cong[OF refl]) (use MkDiagram in \<open>auto simp: snds.simps\<close>)
  moreover have "map (map_prod id JSON_Path \<circ> map_prod id JSON_Path) pa = map (map_prod id JSON_Path) pa"
    by (rule map_cong[OF refl]) auto
  ultimately show ?case by simp
qed

lemma copy_JSON_roundtrip: "copy d = JSON_roundtrip d"
proof (induction d rule: measure_induct_rule[where f = size])
  case (less d)
  obtain ty ch pa og cs cf where d: "d = MkDiagram ty ch pa og cs cf" by (cases d)
  have "copy (snd c) = JSON_roundtrip (snd c)"
    if "c \<in> set (map (map_prod id JSON_roundtrip) ch)" for c
  proof -
    from that obtain c' where c': "c' \<in> set ch" "c = map_prod id JSON_roundtrip c'" by auto
    have "size (snd c) = size (snd c')"
      by (cases c') (simp add: c'(2))
    then have "size (snd c) < size d"
      using child_smaller[OF c'(1), of ty pa og cs cf] by (simp add: d)
    then show ?thesis by (rule less.IH)
  qed
  then have "map (\<lambda>c. (fst c, copy (snd c))) (map (map_prod id JSON_roundtrip) ch)
      = map (\<lambda>c. (fst c, JSON_roundtrip (snd c))) (map (map_prod id JSON_roundtrip) ch)"
    by (intro map_cong[OF refl]) simp
  also have "\<dots> = map (map_prod id JSON_roundtrip) ch"
    by (induction ch) auto
  finally show ?case
    by (simp add: d copy.simps[of "MkDiagram ty ch pa og cs cf"] map_idI)
qed

lemma size_copy [simp]: "size (copy d) = size d"
  by (simp add: copy_JSON_roundtrip)

lemma child_of_copy [termination_simp]:
  "copy this = MkDiagram ty ch pa og cs cf \<Longrightarrow> c \<in> set ch \<Longrightarrow> size (snd c) < size this"
  using child_smaller[of c ch ty pa og cs cf] size_copy[of this] by simp

fun translate :: "Diagram \<Rightarrow> coordinate Vector2 \<Rightarrow> Diagram" where
  "translate this v =
     (case copy this of MkDiagram ty ch pa og cs cf \<Rightarrow>
        MkDiagram ty
          (map (\<lambda>c. (fst c, translate (snd c) v)) ch)
          (map (\<lambda>p. (fst p, Path_translate (snd p) v)) pa)
          (Vector2_add og v) cs cf)"

definition position :: "Diagram \<Rightarrow> coordinate Vector2 \<Rightarrow> Diagram" where
  "position this v = (let dv = Vector2_sub v (origin this) in translate this dv)"

fun rotate :: "Diagram \<Rightarrow> number \<Rightarrow> coordinate Vector2 option \<Rightarrow> Diagram" where
  "rotate this angle pivot =
     (case copy this of MkDiagram ty ch pa og cs cf \<Rightarrow>
        (let pivot' = (case pivot of None \<Rightarrow> og | Some p \<Rightarrow> p)
         in MkDiagram ty
              (map (\<lambda>c. (fst c, rotate (snd c) angle (Some pivot'))) ch)
              (map (\<lambda>p. (fst p, Path_rotate (snd p) angle pivot')) pa)
              og cs cf))"

declare translate.simps [simp del] rotate.simps [simp del]

fun fill :: "Diagram \<Rightarrow> string \<Rightarrow> Diagram" where
  "fill this color =
     (case copy this of MkDiagram ty ch pa og cs cf \<Rightarrow>
        (case ty of
           Polygon \<Rightarrow> MkDiagram ty ch pa og cs (Some color)
         | Curve \<Rightarrow> MkDiagram ty ch pa og cs cf
         | Diagram \<Rightarrow>
             (let unused = map (\<lambda>c. fill (snd c) color) ch
              in MkDiagram ty ch pa og cs cf)))"

fun stroke :: "Diagram \<Rightarrow> string \<Rightarrow> Diagram" where
  "stroke this color =
     (case copy this of MkDiagram ty ch pa og cs cf \<Rightarrow>
        (case ty of
           Polygon \<Rightarrow> MkDiagram ty ch pa og (Some color) cf
         | Curve \<Rightarrow> MkDiagram ty ch pa og (Some color) cf
         | Diagram \<Rightarrow>
             (let unused = map (\<lambda>c. stroke (snd c) color) ch
              in MkDiagram ty ch pa og cs cf)))"

declare fill.simps [simp del] stroke.simps [simp del]

type_synonym extent = "number \<times> number \<times> number \<times> number"

definition include_point :: "coordinate Vector2 \<Rightarrow> extent \<Rightarrow> extent" where
  "include_point point e =
     (case e of (minx, miny, maxx, maxy) \<Rightarrow>
        (Math_min minx (to_number (vx point)), Math_min miny (to_number (vy point)),
         Math_max maxx (to_number (vx point)), Math_max maxy (to_number (vy point))))"

definition include_box :: "number Vector2 \<times> number Vector2 \<Rightarrow> extent \<Rightarrow> extent" where
  "include_box b e =
     (case e of (minx, miny, maxx, maxy) \<Rightarrow>
        (case b of (lo, hi) \<Rightarrow>
           (Math_min minx (vx lo), Math_min miny (vy lo),
            Math_max maxx (vx hi), Math_max maxy (vy hi))))"

definition corners :: "extent \<Rightarrow> number Vector2 \<times> number Vector2" where
  "corners e = (case e of (minx, miny, maxx, maxy) \<Rightarrow> (Vector2 minx miny, Vector2 maxx maxy))"

fun bounding_box :: "Diagram \<Rightarrow> number Vector2 \<times> number Vector2" where
  "bounding_box (MkDiagram ty ch pa og cs cf) =
     (let start = (Infinity, Infinity, NegInfinity, NegInfinity)
      in case ty of
           Polygon \<Rightarrow> corners (fold (\<lambda>p. fold include_point (points (snd p))) pa start)
         | Curve \<Rightarrow> corners (fold (\<lambda>p. fold include_point (points (snd p))) pa start)
         | Diagram \<Rightarrow> corners (fold (\<lambda>c. include_box (bounding_box (snd c))) ch start))"

section \<open>Construction\<close>

definition polygon ::
  "coordinate Vector2 list \<Rightarrow> string list \<Rightarrow> error + Diagram \<times> Path option" where
  "polygon points' names =
     (case assert (length points' \<ge> 3) ''Polygon must have at least 3 points'' of
        Inl e \<Rightarrow> Inl e
      | Inr u \<Rightarrow>
          (let paths' = map (\<lambda>i. Path [points' ! i, points' ! (i + 1)]) [0..<length points' - 1];
               path_names = map (\<lambda>i. ''path'' @ toString i) [0..<length paths'];
               imax = min (length path_names) (length names);
               path_names = fold (\<lambda>i ns. ns[i := names ! i]) [0..<imax] path_names;
               polygon = new_Diagram Polygon
           in add_paths polygon paths' path_names))"

section \<open>Diagrams as objects in a store\<close>

text \<open>
  The methods of class \<open>Diagram\<close> work on objects: \<open>copy\<close> builds new objects, and the other
  methods assign to fields of the object that \<open>copy\<close> has returned. To follow which object a
  method changes, objects live in a store: a list of objects, where a reference is an index
  and \<open>new\<close> appends. A \<open>Diagram\<close> object holds its type, its two dictionaries from names to
  references, its origin and its colours; a \<open>Path\<close> object holds its points. Vectors are
  immutable values, and no dictionary or array of points is shared between two objects, so
  both are kept inside the object that owns them.

  A method returns \<open>None\<close> when a reference it follows holds no object of the class it expects,
  or when the recursion depth \<open>n\<close> it is given is used up. The methods recurse into children
  only, so that a depth above the height of the tree is enough.

  \<open>JSON.parse(JSON.stringify(this))\<close> builds new objects for the whole subtree of \<open>this\<close>: the
  entries of both dictionaries first, then the object itself. Finite numbers and strings are
  read back as they were written, every other number as \<open>null\<close> (\<open>JSON_Vector2\<close>), and a colour
  that is \<open>undefined\<close> is left out and read back as \<open>undefined\<close>.

  The dictionaries of an object in the store have the prototype every object starts with, and
  their entries are in the order of enumeration, as for diagrams as values. The loops of the
  methods store under names that the dictionary has, so that \<open>set_entry\<close> replaces the value
  of an entry and leaves the order as it is.
\<close>

type_synonym ref = nat

datatype object =
    DiagramObject DiagramType "(string \<times> ref) list" "(string \<times> ref) list" "coordinate Vector2"
      "string option" "string option"
  | PathObject "coordinate Vector2 list"

type_synonym store = "object list"

definition new :: "store \<Rightarrow> object \<Rightarrow> ref \<times> store" where
  "new s obj = (length s, s @ [obj])"

datatype dictionary = Children | Paths

definition entries_of :: "dictionary \<Rightarrow> object \<Rightarrow> (string \<times> ref) list option" where
  "entries_of f obj =
     (case obj of
        DiagramObject ty ch pa og cs cf \<Rightarrow> Some (case f of Children \<Rightarrow> ch | Paths \<Rightarrow> pa)
      | PathObject ps \<Rightarrow> None)"

definition with_entries :: "dictionary \<Rightarrow> (string \<times> ref) list \<Rightarrow> object \<Rightarrow> object" where
  "with_entries f al obj =
     (case obj of
        DiagramObject ty ch pa og cs cf \<Rightarrow>
          (case f of
             Children \<Rightarrow> DiagramObject ty al pa og cs cf
           | Paths \<Rightarrow> DiagramObject ty ch al og cs cf)
      | PathObject ps \<Rightarrow> PathObject ps)"

definition entries :: "dictionary \<Rightarrow> store \<Rightarrow> ref \<Rightarrow> (string \<times> ref) list option" where
  "entries f s r = (if r < length s then entries_of f (s ! r) else None)"

definition get_entry :: "dictionary \<Rightarrow> store \<Rightarrow> ref \<Rightarrow> string \<Rightarrow> ref option" where
  "get_entry f s r name = (case entries f s r of None \<Rightarrow> None | Some al \<Rightarrow> map_of al name)"

definition set_entry :: "dictionary \<Rightarrow> store \<Rightarrow> ref \<Rightarrow> string \<Rightarrow> ref \<Rightarrow> store option" where
  "set_entry f s r name v =
     (case entries f s r of
        None \<Rightarrow> None
      | Some al \<Rightarrow> Some (s[r := with_entries f (AList.update name v al) (s ! r)]))"

text \<open>
  The loop \<open>for (let c in newd.children) { newd.children[c] = newd.children[c].method(...) }\<close>
  (and the same loop over \<open>newd.paths\<close>): the names are those of the dictionary when the loop
  starts; every round reads the entry, calls the method in the store as it is then, and stores
  the reference returned. In \<open>call_each\<close> the reference returned is dropped, as in the loops of
  \<open>fill\<close> and \<open>stroke\<close>.
\<close>

fun replace_each ::
  "dictionary \<Rightarrow> (store \<Rightarrow> ref \<Rightarrow> (ref \<times> store) option) \<Rightarrow> ref \<Rightarrow> string list \<Rightarrow> store
     \<Rightarrow> store option" where
  "replace_each f method newd [] s = Some s"
| "replace_each f method newd (c # cs) s =
     (case get_entry f s newd c of
        None \<Rightarrow> None
      | Some r \<Rightarrow>
          (case method s r of
             None \<Rightarrow> None
           | Some (r', s1) \<Rightarrow>
               (case set_entry f s1 newd c r' of
                  None \<Rightarrow> None
                | Some s2 \<Rightarrow> replace_each f method newd cs s2)))"

definition for_in_replace ::
  "dictionary \<Rightarrow> (store \<Rightarrow> ref \<Rightarrow> (ref \<times> store) option) \<Rightarrow> ref \<Rightarrow> store \<Rightarrow> store option" where
  "for_in_replace f method newd s =
     (case entries f s newd of
        None \<Rightarrow> None
      | Some al \<Rightarrow> replace_each f method newd (map fst al) s)"

fun call_each ::
  "(store \<Rightarrow> ref \<Rightarrow> (ref \<times> store) option) \<Rightarrow> ref \<Rightarrow> string list \<Rightarrow> store \<Rightarrow> store option" where
  "call_each method newd [] s = Some s"
| "call_each method newd (c # cs) s =
     (case get_entry Children s newd c of
        None \<Rightarrow> None
      | Some r \<Rightarrow>
          (case method s r of
             None \<Rightarrow> None
           | Some (unused, s1) \<Rightarrow> call_each method newd cs s1))"

definition for_in_call ::
  "(store \<Rightarrow> ref \<Rightarrow> (ref \<times> store) option) \<Rightarrow> ref \<Rightarrow> store \<Rightarrow> store option" where
  "for_in_call method newd s =
     (case entries Children s newd of
        None \<Rightarrow> None
      | Some al \<Rightarrow> call_each method newd (map fst al) s)"

fun parse_entries ::
  "(store \<Rightarrow> ref \<Rightarrow> (ref \<times> store) option) \<Rightarrow> (string \<times> ref) list \<Rightarrow> store
     \<Rightarrow> ((string \<times> ref) list \<times> store) option" where
  "parse_entries clone [] s = Some ([], s)"
| "parse_entries clone (e # es) s =
     (case clone s (snd e) of
        None \<Rightarrow> None
      | Some (r', s1) \<Rightarrow>
          (case parse_entries clone es s1 of
             None \<Rightarrow> None
           | Some (es', s2) \<Rightarrow> Some ((fst e, r') # es', s2)))"

primrec JSON_clone :: "nat \<Rightarrow> store \<Rightarrow> ref \<Rightarrow> (ref \<times> store) option" where
  "JSON_clone 0 s r = None"
| "JSON_clone (Suc n) s r =
     (if r < length s then
        (case s ! r of
           PathObject ps \<Rightarrow> Some (new s (PathObject (map JSON_Vector2 ps)))
         | DiagramObject ty ch pa og cs cf \<Rightarrow>
             (case parse_entries (JSON_clone n) ch s of
                None \<Rightarrow> None
              | Some (ch', s1) \<Rightarrow>
                  (case parse_entries (JSON_clone n) pa s1 of
                     None \<Rightarrow> None
                   | Some (pa', s2) \<Rightarrow>
                       Some (new s2 (DiagramObject ty ch' pa' (JSON_Vector2 og) cs cf)))))
      else None)"

definition Path_copy_in :: "store \<Rightarrow> ref \<Rightarrow> (ref \<times> store) option" where
  "Path_copy_in s this =
     (if this < length s then
        (case s ! this of
           PathObject ps \<Rightarrow> Some (new s (PathObject (map (\<lambda>p. Vector2 (vx p) (vy p)) ps)))
         | DiagramObject ty ch pa og cs cf \<Rightarrow> None)
      else None)"

definition set_points :: "store \<Rightarrow> ref \<Rightarrow> (coordinate Vector2 \<Rightarrow> coordinate Vector2) \<Rightarrow> store option" where
  "set_points s newp f =
     (if newp < length s then
        (case s ! newp of
           PathObject ps \<Rightarrow> Some (s[newp := PathObject (map f ps)])
         | DiagramObject ty ch pa og cs cf \<Rightarrow> None)
      else None)"

definition Path_translate_in :: "coordinate Vector2 \<Rightarrow> store \<Rightarrow> ref \<Rightarrow> (ref \<times> store) option" where
  "Path_translate_in v s this =
     (case Path_copy_in s this of
        None \<Rightarrow> None
      | Some (newp, s1) \<Rightarrow>
          (case set_points s1 newp (\<lambda>p. Vector2_add p v) of
             None \<Rightarrow> None
           | Some s2 \<Rightarrow> Some (newp, s2)))"

definition Path_rotate_in :: "number \<Rightarrow> coordinate Vector2 \<Rightarrow> store \<Rightarrow> ref \<Rightarrow> (ref \<times> store) option" where
  "Path_rotate_in angle pivot s this =
     (case Path_copy_in s this of
        None \<Rightarrow> None
      | Some (newp, s1) \<Rightarrow>
          (case set_points s1 newp
                  (\<lambda>p. Vector2_add (Vector2_rotate (Vector2_sub p pivot) angle) pivot) of
             None \<Rightarrow> None
           | Some s2 \<Rightarrow> Some (newp, s2)))"

primrec copy_in :: "nat \<Rightarrow> store \<Rightarrow> ref \<Rightarrow> (ref \<times> store) option" where
  "copy_in 0 s this = None"
| "copy_in (Suc n) s this =
     (case JSON_clone (Suc n) s this of
        None \<Rightarrow> None
      | Some (newd, s1) \<Rightarrow>
          (case for_in_replace Children (copy_in n) newd s1 of
             None \<Rightarrow> None
           | Some s2 \<Rightarrow>
               (case for_in_replace Paths Path_copy_in newd s2 of
                  None \<Rightarrow> None
                | Some s3 \<Rightarrow> Some (newd, s3))))"

definition set_color_fill :: "store \<Rightarrow> ref \<Rightarrow> string \<Rightarrow> store" where
  "set_color_fill s r color =
     (case s ! r of
        DiagramObject ty ch pa og cs cf \<Rightarrow> s[r := DiagramObject ty ch pa og cs (Some color)]
      | PathObject ps \<Rightarrow> s)"

definition set_color_stroke :: "store \<Rightarrow> ref \<Rightarrow> string \<Rightarrow> store" where
  "set_color_stroke s r color =
     (case s ! r of
        DiagramObject ty ch pa og cs cf \<Rightarrow> s[r := DiagramObject ty ch pa og (Some color) cf]
      | PathObject ps \<Rightarrow> s)"

definition set_origin :: "store \<Rightarrow> ref \<Rightarrow> coordinate Vector2 \<Rightarrow> store" where
  "set_origin s r v =
     (case s ! r of
        DiagramObject ty ch pa og cs cf \<Rightarrow> s[r := DiagramObject ty ch pa v cs cf]
      | PathObject ps \<Rightarrow> s)"

definition type_in :: "store \<Rightarrow> ref \<Rightarrow> DiagramType option" where
  "type_in s r =
     (if r < length s then
        (case s ! r of
           DiagramObject ty ch pa og cs cf \<Rightarrow> Some ty
         | PathObject ps \<Rightarrow> None)
      else None)"

definition origin_in :: "store \<Rightarrow> ref \<Rightarrow> coordinate Vector2 option" where
  "origin_in s r =
     (if r < length s then
        (case s ! r of
           DiagramObject ty ch pa og cs cf \<Rightarrow> Some og
         | PathObject ps \<Rightarrow> None)
      else None)"

primrec fill_in :: "nat \<Rightarrow> string \<Rightarrow> store \<Rightarrow> ref \<Rightarrow> (ref \<times> store) option" where
  "fill_in 0 color s this = None"
| "fill_in (Suc n) color s this =
     (case copy_in (Suc n) s this of
        None \<Rightarrow> None
      | Some (newd, s1) \<Rightarrow>
          (case type_in s1 newd of
             None \<Rightarrow> None
           | Some Polygon \<Rightarrow> Some (newd, set_color_fill s1 newd color)
           | Some Curve \<Rightarrow> Some (newd, s1)
           | Some Diagram \<Rightarrow>
               (case for_in_call (fill_in n color) newd s1 of
                  None \<Rightarrow> None
                | Some s2 \<Rightarrow> Some (newd, s2))))"

primrec stroke_in :: "nat \<Rightarrow> string \<Rightarrow> store \<Rightarrow> ref \<Rightarrow> (ref \<times> store) option" where
  "stroke_in 0 color s this = None"
| "stroke_in (Suc n) color s this =
     (case copy_in (Suc n) s this of
        None \<Rightarrow> None
      | Some (newd, s1) \<Rightarrow>
          (case type_in s1 newd of
             None \<Rightarrow> None
           | Some Polygon \<Rightarrow> Some (newd, set_color_stroke s1 newd color)
           | Some Curve \<Rightarrow> Some (newd, set_color_stroke s1 newd color)
           | Some Diagram \<Rightarrow>
               (case for_in_call (stroke_in n color) newd s1 of
                  None \<Rightarrow> None
                | Some s2 \<Rightarrow> Some (newd, s2))))"

primrec translate_in :: "nat \<Rightarrow> coordinate Vector2 \<Rightarrow> store \<Rightarrow> ref \<Rightarrow> (ref \<times> store) option" where
  "translate_in 0 v s this = None"
| "translate_in (Suc n) v s this =
     (case copy_in (Suc n) s this of
        None \<Rightarrow> None
      | Some (newd, s1) \<Rightarrow>
          (case origin_in s1 newd of
             None \<Rightarrow> None
           | Some og \<Rightarrow>
               (case for_in_replace Children (translate_in n v) newd
                       (set_origin s1 newd (Vector2_add og v)) of
                  None \<Rightarrow> None
                | Some s2 \<Rightarrow>
                    (case for_in_replace Paths (Path_translate_in v) newd s2 of
                       None \<Rightarrow> None
                     | Some s3 \<Rightarrow> Some (newd, s3)))))"

definition position_in :: "nat \<Rightarrow> coordinate Vector2 \<Rightarrow> store \<Rightarrow> ref \<Rightarrow> (ref \<times> store) option" where
  "position_in n v s this =
     (case origin_in s this of
        None \<Rightarrow> None
      | Some og \<Rightarrow> (let dv = Vector2_sub v og in translate_in n dv s this))"

primrec rotate_in ::
  "nat \<Rightarrow> number \<Rightarrow> coordinate Vector2 option \<Rightarrow> store \<Rightarrow> ref \<Rightarrow> (ref \<times> store) option" where
  "rotate_in 0 angle pivot s this = None"
| "rotate_in (Suc n) angle pivot s this =
     (case copy_in (Suc n) s this of
        None \<Rightarrow> None
      | Some (newd, s1) \<Rightarrow>
          (case origin_in s1 newd of
             None \<Rightarrow> None
           | Some og \<Rightarrow>
               (let pivot' = (case pivot of None \<Rightarrow> og | Some p \<Rightarrow> p)
                in case for_in_replace Children (rotate_in n angle (Some pivot')) newd s1 of
                     None \<Rightarrow> None
                   | Some s2 \<Rightarrow>
                       (case for_in_replace Paths (Path_rotate_in angle pivot') newd s2 of
                          None \<Rightarrow> None
                        | Some s3 \<Rightarrow> Some (newd, s3)))))"

text \<open>
  \<open>bounding_box\<close> read from the store.
\<close>

definition points_in :: "store \<Rightarrow> ref \<Rightarrow> coordinate Vector2 list option" where
  "points_in s r =
     (if r < length s then
        (case s ! r of
           PathObject ps \<Rightarrow> Some ps
         | DiagramObject ty ch pa og cs cf \<Rightarrow> None)
      else None)"

fun include_paths :: "store \<Rightarrow> (string \<times> ref) list \<Rightarrow> extent \<Rightarrow> extent option" where
  "include_paths s [] e = Some e"
| "include_paths s (p # ps) e =
     (case points_in s (snd p) of
        None \<Rightarrow> None
      | Some pts \<Rightarrow> include_paths s ps (fold include_point pts e))"

fun include_children ::
  "(ref \<Rightarrow> (number Vector2 \<times> number Vector2) option) \<Rightarrow> (string \<times> ref) list \<Rightarrow> extent
     \<Rightarrow> extent option" where
  "include_children box [] e = Some e"
| "include_children box (c # cs) e =
     (case box (snd c) of
        None \<Rightarrow> None
      | Some b \<Rightarrow> include_children box cs (include_box b e))"

primrec bounding_box_in :: "nat \<Rightarrow> store \<Rightarrow> ref \<Rightarrow> (number Vector2 \<times> number Vector2) option" where
  "bounding_box_in 0 s this = None"
| "bounding_box_in (Suc n) s this =
     (if this < length s then
        (case s ! this of
           PathObject ps \<Rightarrow> None
         | DiagramObject ty ch pa og cs cf \<Rightarrow>
             (let start = (Infinity, Infinity, NegInfinity, NegInfinity)
              in case ty of
                   Polygon \<Rightarrow> map_option corners (include_paths s pa start)
                 | Curve \<Rightarrow> map_option corners (include_paths s pa start)
                 | Diagram \<Rightarrow>
                     map_option corners (include_children (bounding_box_in n s) ch start)))
      else None)"

definition path_at :: "nat \<Rightarrow> nat \<Rightarrow> store \<Rightarrow> ref \<Rightarrow> Path \<Rightarrow> bool" where
  "path_at lo hi s r p \<longleftrightarrow> lo \<le> r \<and> r < hi \<and> r < length s \<and> s ! r = PathObject (points p)"

text \<open>
  \<open>node lo hi s r d\<close>: the object at \<open>r\<close> in store \<open>s\<close> is the root of the tree \<open>d\<close>, and all objects
  below the root are at references from \<open>lo\<close> up to, not including, \<open>hi\<close>. \<open>tree_at\<close> asks the
  same of the root. The names of a dictionary are distinct. \<open>height\<close> is the number of levels
  of a tree.
\<close>

fun node :: "nat \<Rightarrow> nat \<Rightarrow> store \<Rightarrow> ref \<Rightarrow> Diagram \<Rightarrow> bool" where
  "node lo hi s r (MkDiagram ty ch pa og cs cf) =
     (r < length s \<and>
      (case s ! r of
         DiagramObject ty' rch rpa og' cs' cf' \<Rightarrow>
           ty' = ty \<and> og' = og \<and> cs' = cs \<and> cf' = cf \<and>
           distinct (map fst rch) \<and> distinct (map fst rpa) \<and>
           list_all2 (\<lambda>a c. fst a = fst c \<and> lo \<le> snd a \<and> snd a < hi \<and> node lo hi s (snd a) (snd c))
             rch ch \<and>
           list_all2 (\<lambda>a p. fst a = fst p \<and> path_at lo hi s (snd a) (snd p)) rpa pa
       | PathObject ps \<Rightarrow> False))"

fun height :: "Diagram \<Rightarrow> nat" where
  "height (MkDiagram ty ch pa og cs cf) = Suc (fold (\<lambda>c. max (height (snd c))) ch 0)"

definition tree_at :: "nat \<Rightarrow> nat \<Rightarrow> store \<Rightarrow> ref \<Rightarrow> Diagram \<Rightarrow> bool" where
  "tree_at lo hi s r d \<longleftrightarrow> lo \<le> r \<and> r < hi \<and> node lo hi s r d"

text \<open>
  What a call leaves as it was: every object that the store held before the call, hence the
  tree of the receiver, its origin and its bounding box. \<open>extends\<close> and \<open>agree\<close> compare two
  stores on all, or on a range of, the references of the first.
\<close>

definition receiver_unchanged :: "nat \<Rightarrow> store \<Rightarrow> ref \<Rightarrow> Diagram \<Rightarrow> store \<Rightarrow> bool" where
  "receiver_unchanged n s r d s' \<longleftrightarrow>
     take (length s) s' = s \<and> tree_at 0 (length s) s' r d \<and>
     origin_in s' r = origin_in s r \<and> bounding_box_in n s' r = bounding_box_in n s r"

definition extends :: "store \<Rightarrow> store \<Rightarrow> bool" where
  "extends s s' \<longleftrightarrow> length s \<le> length s' \<and> (\<forall>i<length s. s' ! i = s ! i)"

definition agree :: "nat \<Rightarrow> nat \<Rightarrow> store \<Rightarrow> store \<Rightarrow> bool" where
  "agree lo hi s s' \<longleftrightarrow> (\<forall>i. lo \<le> i \<and> i < hi \<and> i < length s \<longrightarrow> i < length s' \<and> s' ! i = s ! i)"

section \<open>What a tree contains\<close>

text \<open>
  The points of every path of every node of a tree, and the origins of all its nodes, in the
  order in which the loops of the module walk the tree (own paths first, then the children).
\<close>

fun all_points :: "Diagram \<Rightarrow> coordinate Vector2 list" where
  "all_points (MkDiagram ty ch pa og cs cf) =
     concat (map (\<lambda>p. points (snd p)) pa) @ concat (map (\<lambda>c. all_points (snd c)) ch)"

fun all_origins :: "Diagram \<Rightarrow> coordinate Vector2 list" where
  "all_origins (MkDiagram ty ch pa og cs cf) = og # concat (map (\<lambda>c. all_origins (snd c)) ch)"

section \<open>Reference notions for the claims\<close>

text \<open>
  A coordinate is finite when it holds a finite number (not \<open>null\<close>, \<open>NaN\<close> or an infinity),
  and it is a double when this number is one that rounding leaves as it is. \<open>rotate_about\<close> is
  the rotation of a point about a pivot as class \<open>Path\<close> computes it.
\<close>

fun finite_coordinate :: "coordinate \<Rightarrow> bool" where
  "finite_coordinate (Num (Finite a)) = True"
| "finite_coordinate c = False"

definition finite_vector :: "coordinate Vector2 \<Rightarrow> bool" where
  "finite_vector v \<longleftrightarrow> finite_coordinate (vx v) \<and> finite_coordinate (vy v)"

fun double_coordinate :: "coordinate \<Rightarrow> bool" where
  "double_coordinate (Num (Finite a)) = is_double a"
| "double_coordinate c = False"

definition double_vector :: "coordinate Vector2 \<Rightarrow> bool" where
  "double_vector v \<longleftrightarrow> double_coordinate (vx v) \<and> double_coordinate (vy v)"

definition rotate_about :: "number \<Rightarrow> coordinate Vector2 \<Rightarrow> coordinate Vector2 \<Rightarrow> coordinate Vector2" where
  "rotate_about a p q = Vector2_add (Vector2_rotate (Vector2_sub q p) a) p"




fun finite_values :: "number list \<Rightarrow> real list" where
  "finite_values [] = []"
| "finite_values (Finite a # ns) = a # finite_values ns"
| "finite_values (n # ns) = finite_values ns"

definition least :: "number list \<Rightarrow> number" where
  "least ns =
     (if NaN \<in> set ns then NaN
      else if NegInfinity \<in> set ns then NegInfinity
      else if finite_values ns = [] then Infinity
      else Finite (Min (set (finite_values ns))))"




definition unsupported_operation :: error where
  "unsupported_operation = Error ''Get Parametric Point For n>2 is Not Implemented yet''"

text \<open>
  Stores into a dictionary. A store under a name sets the prototype when the name is
  \<open>"__proto__"\<close> and the dictionary has no entry of that name (\<open>sets_prototype\<close>). \<open>store_all\<close>
  is the loop \<open>for (let i in objects) { dict[names[i]] = objects[i]; }\<close> of \<open>add_childs\<close> and
  \<open>add_paths\<close>. \<open>names_given\<close> are the names it stores under, and \<open>last_given ks i\<close> says that
  the name at index \<open>i\<close> does not occur again after \<open>i\<close>.

  \<open>last_write_wins al vs names al' proto\<close> relates the entries \<open>al\<close> of a dictionary before the
  loop to its entries \<open>al'\<close> after it and to the prototype \<open>proto\<close> the loop has set, if any: a
  name holds the last object stored under it; a name that was not given holds what it held;
  the names of the dictionary are those it had and those given, none twice, so that the
  number of entries is the number of these names; and a name that sets the prototype adds no
  entry.
\<close>

definition sets_prototype :: "(string \<times> 'v) list \<Rightarrow> string \<Rightarrow> bool" where
  "sets_prototype al name \<longleftrightarrow> name = ''__proto__'' \<and> name \<notin> fst ` set al"

definition store_all ::
  "(nat \<Rightarrow> string) \<Rightarrow> (nat \<Rightarrow> 'v) \<Rightarrow> nat \<Rightarrow> (string \<times> 'v) list \<Rightarrow> (string \<times> 'v) list \<times> 'v option" where
  "store_all f g n al = fold (\<lambda>i. store_property (f i) (g i)) [0..<n] (al, None)"

definition names_given :: "string list \<Rightarrow> nat \<Rightarrow> string list" where
  "names_given names n = map (property_name names) [0..<n]"

definition last_given :: "string list \<Rightarrow> nat \<Rightarrow> bool" where
  "last_given ks i \<longleftrightarrow> i < length ks \<and> ks ! i \<notin> set (drop (Suc i) ks)"

definition last_write_wins ::
  "(string \<times> 'v) list \<Rightarrow> 'v list \<Rightarrow> string list \<Rightarrow> (string \<times> 'v) list \<Rightarrow> 'v option \<Rightarrow> bool" where
  "last_write_wins al vs names al' proto \<longleftrightarrow>
     (let ks = names_given names (length vs) in
        (\<forall>i. last_given ks i \<and> \<not> sets_prototype al (ks ! i) \<longrightarrow> map_of al' (ks ! i) = Some (vs ! i)) \<and>
        (\<forall>k. k \<notin> set ks \<longrightarrow> map_of al' k = map_of al k) \<and>
        fst ` set al' = fst ` set al \<union> {k \<in> set ks. \<not> sets_prototype al k} \<and>
        (distinct (map fst al) \<longrightarrow>
           distinct (map fst al') \<and>
           length al' = card (fst ` set al \<union> {k \<in> set ks. \<not> sets_prototype al k})) \<and>
        (\<forall>i. last_given ks i \<and> sets_prototype al (ks ! i) \<longrightarrow> proto = Some (vs ! i)) \<and>
        (proto = None \<longleftrightarrow> (\<forall>k \<in> set ks. \<not> sets_prototype al k)))"

text \<open>
  The segments of a polygon and the names they are stored under.
\<close>

definition segments :: "coordinate Vector2 list \<Rightarrow> Path list" where
  "segments ps = map (\<lambda>i. Path [ps ! i, ps ! (i + 1)]) [0..<length ps - 1]"

definition segment_names :: "nat \<Rightarrow> string list \<Rightarrow> string list" where
  "segment_names n names =
     map (\<lambda>i. if i < length names then names ! i else ''path'' @ toString i) [0..<n]"

section \<open>Examples\<close>

text \<open>
  A polygon \<open>tri\<close>, a curve \<open>seg\<close> and the group \<open>grp\<close> of both; \<open>tri8\<close>, the polygon with its
  origin at \<open>(8, 0)\<close>; \<open>far\<close>, a curve whose origin has the coordinate \<open>Infinity\<close>; and the
  point \<open>v94\<close>, whose first coordinate is the double nearest to \<open>-9.4\<close>.
\<close>

definition tri :: Diagram where
  "tri = MkDiagram Polygon []
     [(''path0'', Path [V2 0 0, V2 4 2]), (''path1'', Path [V2 4 2, V2 1 5])] (V2 0 0) None None"

definition seg :: Diagram where
  "seg = MkDiagram Curve [] [(''path0'', Path [V2 (- 1) 3, V2 2 7])] (V2 0 0) None None"

definition grp :: Diagram where
  "grp = MkDiagram Diagram [(''a'', tri), (''b'', seg)] [] (V2 0 0) None None"

definition tri8 :: Diagram where
  "tri8 = MkDiagram Polygon []
     [(''path0'', Path [V2 8 0, V2 12 2]), (''path1'', Path [V2 12 2, V2 9 5])] (V2 8 0) None None"

definition far :: Diagram where
  "far = MkDiagram Curve [] [(''path0'', Path [V2 1 0, V2 2 0])]
     (Vector2 (Num Infinity) (Num (Finite 0))) None None"

(* C4 *)

definition v94 :: "coordinate Vector2" where
  "v94 = V2 (- 5291729562160333 / 2 ^ 49) 0"

text \<open>
  The group \<open>grp\<close> as six objects of a store, its root at reference 5.
\<close>

definition grp_store :: store where
  "grp_store =
     [PathObject [V2 0 0, V2 4 2],
      PathObject [V2 4 2, V2 1 5],
      DiagramObject Polygon [] [(''path0'', 0), (''path1'', 1)] (V2 0 0) None None,
      PathObject [V2 (- 1) 3, V2 2 7],
      DiagramObject Curve [] [(''path0'', 3)] (V2 0 0) None None,
      DiagramObject Diagram [(''a'', 2), (''b'', 4)] [] (V2 0 0) None None]"

section \<open>Rounding of small numbers\<close>

lemmas double_eval = double_def scale_down.simps scale_up.simps round_even_def pow2_def

lemma double_small:
  "double 1 = Finite 1" "double 2 = Finite 2" "double 3 = Finite 3" "double 5 = Finite 5"
  "double 6 = Finite 6" "double 8 = Finite 8" "double (- 6) = Finite (- 6)"
  by (simp_all add: double_eval)

lemma double_0: "double 0 = Finite 0"
  by (simp add: double_def)

lemma double_4: "double 4 = Finite 4"
  by (simp add: double_eval)

lemma double_94:
  "double (- 5291729562160333 / 2 ^ 49 - 8) = Finite (- 4897664594765414 / 2 ^ 48)"
  "double (8 + - 4897664594765414 / 2 ^ 48) = Finite (- 5291729562160332 / 2 ^ 49)"
  by (simp_all add: double_eval)

lemma double_94_again:
  "double (- 5291729562160333 / 2 ^ 49 + 5291729562160332 / 2 ^ 49) = Finite (- 1 / 2 ^ 49)"
  "double (- 5291729562160332 / 2 ^ 49 + - 1 / 2 ^ 49) = Finite (- 5291729562160333 / 2 ^ 49)"
  by (simp_all add: double_eval)

section \<open>Translation and rotation\<close>

lemma JSON_finite_coordinate: "finite_coordinate c \<Longrightarrow> JSON_number c = c"
  by (cases c rule: finite_coordinate.cases) simp_all

lemma JSON_finite_vector: "finite_vector v \<Longrightarrow> JSON_Vector2 v = v"
  by (cases v) (simp add: finite_vector_def JSON_Vector2_def JSON_finite_coordinate)

lemma copy_twice: "copy (JSON_roundtrip d) = copy d"
  by (simp add: copy_JSON_roundtrip)

lemma translate_JSON_roundtrip: "translate (JSON_roundtrip d) v = translate d v"
  by (simp add: translate.simps[of "JSON_roundtrip d"] translate.simps[of d] copy_twice)

lemma rotate_JSON_roundtrip: "rotate (JSON_roundtrip d) a p = rotate d a p"
  by (simp add: rotate.simps[of "JSON_roundtrip d"] rotate.simps[of d] copy_twice)

lemma map_entries_comp:
  "map (\<lambda>c. (fst c, f (snd c))) (map (map_prod id g) xs) = map (\<lambda>c. (fst c, f (g (snd c)))) xs"
  by (induction xs) auto

lemma translate_MkDiagram:
  "translate (MkDiagram ty ch pa og cs cf) v =
     MkDiagram ty (map (\<lambda>c. (fst c, translate (snd c) v)) ch)
       (map (\<lambda>p. (fst p, Path_translate (JSON_Path (snd p)) v)) pa)
       (Vector2_add (JSON_Vector2 og) v) cs cf"
  by (simp add: translate.simps[of "MkDiagram ty ch pa og cs cf"] copy_JSON_roundtrip
        map_entries_comp translate_JSON_roundtrip)

lemma rotate_MkDiagram:
  "rotate (MkDiagram ty ch pa og cs cf) angle pivot =
     (let pivot' = (case pivot of None \<Rightarrow> JSON_Vector2 og | Some p \<Rightarrow> p)
      in MkDiagram ty (map (\<lambda>c. (fst c, rotate (snd c) angle (Some pivot'))) ch)
           (map (\<lambda>p. (fst p, Path_rotate (JSON_Path (snd p)) angle pivot')) pa)
           (JSON_Vector2 og) cs cf)"
  by (simp add: rotate.simps[of "MkDiagram ty ch pa og cs cf"] copy_JSON_roundtrip
        map_entries_comp rotate_JSON_roundtrip Let_def)

lemma points_Path_translate_JSON:
  "points (Path_translate (JSON_Path p) v) = map (\<lambda>q. Vector2_add (JSON_Vector2 q) v) (points p)"
  by (simp add: Path_translate_def JSON_Path_def comp_def)

lemma points_Path_rotate_JSON:
  "points (Path_rotate (JSON_Path p) angle pivot) =
     map (\<lambda>q. rotate_about angle pivot (JSON_Vector2 q)) (points p)"
  by (simp add: Path_rotate_def JSON_Path_def comp_def rotate_about_def)

lemma all_points_translate:
  "all_points (translate d v) = map (\<lambda>q. Vector2_add (JSON_Vector2 q) v) (all_points d)"
proof (induction d)
  case (MkDiagram ty ch pa og cs cf)
  have IH: "\<And>c. c \<in> set ch \<Longrightarrow>
      all_points (translate (snd c) v) = map (\<lambda>q. Vector2_add (JSON_Vector2 q) v) (all_points (snd c))"
    using MkDiagram by (auto simp: snds.simps)
  show ?case
    by (simp add: translate_MkDiagram points_Path_translate_JSON map_concat comp_def IH
          cong: map_cong)
qed

lemma all_origins_translate:
  "all_origins (translate d v) = map (\<lambda>q. Vector2_add (JSON_Vector2 q) v) (all_origins d)"
proof (induction d)
  case (MkDiagram ty ch pa og cs cf)
  have IH: "\<And>c. c \<in> set ch \<Longrightarrow>
      all_origins (translate (snd c) v) = map (\<lambda>q. Vector2_add (JSON_Vector2 q) v) (all_origins (snd c))"
    using MkDiagram by (auto simp: snds.simps)
  show ?case
    by (simp add: translate_MkDiagram map_concat comp_def IH cong: map_cong)
qed

lemma origin_translate: "origin (translate d v) = Vector2_add (JSON_Vector2 (origin d)) v"
  by (cases d) (simp add: translate_MkDiagram)

lemma map_finite_JSON:
  "list_all finite_vector qs \<Longrightarrow> map (\<lambda>q. f (JSON_Vector2 q)) qs = map f qs"
  by (induction qs) (simp_all add: JSON_finite_vector)

lemma origin_in_all_origins: "origin d \<in> set (all_origins d)"
  by (cases d) simp

lemma finite_grp: "list_all finite_vector (all_origins grp @ all_points grp)"
  by (simp add: grp_def tri_def seg_def finite_vector_def V2_def)

text \<open>
  C3, as the code has it. \<open>translate\<close> works on a copy made with \<open>JSON\<close>: every origin and every
  point of the tree is first read back from \<open>JSON\<close>, where a coordinate that is not a finite
  number has become \<open>null\<close>, and then \<open>v\<close> is added to it with the addition of doubles. So when
  all coordinates of \<open>d\<close> are finite, the origin of the result is \<open>d.origin + v\<close>, and the
  origin of every node and every point of every path is the one of \<open>d\<close> plus \<open>v\<close>.
\<close>

theorem translate_shifts_origins_and_points:
  "all_origins (translate d v) = map (\<lambda>q. Vector2_add (JSON_Vector2 q) v) (all_origins d) \<and>
   all_points (translate d v) = map (\<lambda>q. Vector2_add (JSON_Vector2 q) v) (all_points d) \<and>
   (list_all finite_vector (all_origins d @ all_points d) \<longrightarrow>
      origin (translate d v) = Vector2_add (origin d) v \<and>
      all_origins (translate d v) = map (\<lambda>q. Vector2_add q v) (all_origins d) \<and>
      all_points (translate d v) = map (\<lambda>q. Vector2_add q v) (all_points d))"
proof (intro conjI impI)
  assume fin: "list_all finite_vector (all_origins d @ all_points d)"
  then have "finite_vector (origin d)"
    using origin_in_all_origins[of d] by (auto simp: list_all_iff)
  then show "origin (translate d v) = Vector2_add (origin d) v"
    by (simp add: origin_translate JSON_finite_vector)
  from fin show "all_origins (translate d v) = map (\<lambda>q. Vector2_add q v) (all_origins d)"
    by (simp add: all_origins_translate map_finite_JSON[where f = "\<lambda>q. Vector2_add q v"])
  from fin show "all_points (translate d v) = map (\<lambda>q. Vector2_add q v) (all_points d)"
    by (simp add: all_points_translate map_finite_JSON[where f = "\<lambda>q. Vector2_add q v"])
qed (simp_all add: all_origins_translate all_points_translate)

theorem translate_shifts_origins_and_points_witness:
  "list_all finite_vector (all_origins grp @ all_points grp) \<and>
   origin (translate grp (V2 1 2)) = Vector2_add (origin grp) (V2 1 2) \<and>
   all_origins (translate grp (V2 1 2)) = map (\<lambda>q. Vector2_add q (V2 1 2)) (all_origins grp) \<and>
   all_points (translate grp (V2 1 2)) = map (\<lambda>q. Vector2_add q (V2 1 2)) (all_points grp)"
  using translate_shifts_origins_and_points [of grp "V2 1 2"] finite_grp by blast

text \<open>
  C3 as stated fails on a coordinate that is not finite: the origin \<open>(Infinity, 0)\<close> of \<open>far\<close>
  translated by \<open>(1, 1)\<close> is \<open>(1, 1)\<close>, while \<open>far.origin + (1, 1)\<close> is \<open>(Infinity, 1)\<close>.
\<close>

theorem translate_loses_infinite_origin:
  "origin (translate far (V2 1 1)) = V2 1 1 \<and>
   Vector2_add (origin far) (V2 1 1) = Vector2 (Num Infinity) (Num (Finite 1))"
  by (simp add: far_def translate_MkDiagram JSON_Vector2_def Vector2_add_def V2_def
        double_small)

lemma all_points_rotate_Some:
  "all_points (rotate d angle (Some pivot)) =
     map (\<lambda>q. rotate_about angle pivot (JSON_Vector2 q)) (all_points d)"
proof (induction d)
  case (MkDiagram ty ch pa og cs cf)
  have IH: "\<And>c. c \<in> set ch \<Longrightarrow>
      all_points (rotate (snd c) angle (Some pivot)) =
      map (\<lambda>q. rotate_about angle pivot (JSON_Vector2 q)) (all_points (snd c))"
    using MkDiagram by (auto simp: snds.simps)
  show ?case
    by (simp add: rotate_MkDiagram points_Path_rotate_JSON map_concat comp_def IH cong: map_cong)
qed

lemma rotate_None: "rotate d angle None = rotate d angle (Some (JSON_Vector2 (origin d)))"
  by (cases d) (simp add: rotate_MkDiagram)

text \<open>
  C5, as the code has it. The pivot chosen at the top level is passed unchanged to every child
  and every path, and every point \<open>q\<close> of the copy becomes \<open>rotate(q - p, a) + p\<close>. The points
  that are rotated and the origin that stands in for an omitted pivot are those of the copy
  made with \<open>JSON\<close>. So with a supplied pivot the claim holds when all points of \<open>d\<close> are finite,
  and with the pivot omitted when the origin of \<open>d\<close> is finite as well.
\<close>

theorem rotate_threads_one_pivot:
  "all_points (rotate d a (Some p)) = map (\<lambda>q. rotate_about a p (JSON_Vector2 q)) (all_points d) \<and>
   all_points (rotate d a None) =
     map (\<lambda>q. rotate_about a (JSON_Vector2 (origin d)) (JSON_Vector2 q)) (all_points d) \<and>
   (list_all finite_vector (all_points d) \<longrightarrow>
      all_points (rotate d a (Some p)) =
        map (\<lambda>q. Vector2_add (Vector2_rotate (Vector2_sub q p) a) p) (all_points d)) \<and>
   (list_all finite_vector (origin d # all_points d) \<longrightarrow>
      all_points (rotate d a None) =
        map (\<lambda>q. Vector2_add (Vector2_rotate (Vector2_sub q (origin d)) a) (origin d))
          (all_points d))"
proof (intro conjI impI)
  assume "list_all finite_vector (all_points d)"
  then show "all_points (rotate d a (Some p)) =
        map (\<lambda>q. Vector2_add (Vector2_rotate (Vector2_sub q p) a) p) (all_points d)"
    using map_finite_JSON[where f = "rotate_about a p" and qs = "all_points d"]
    by (simp add: all_points_rotate_Some) (simp add: rotate_about_def)
next
  assume "list_all finite_vector (origin d # all_points d)"
  then show "all_points (rotate d a None) =
        map (\<lambda>q. Vector2_add (Vector2_rotate (Vector2_sub q (origin d)) a) (origin d))
          (all_points d)"
    using map_finite_JSON[where f = "rotate_about a (origin d)" and qs = "all_points d"]
    by (simp add: all_points_rotate_Some rotate_None JSON_finite_vector)
       (simp add: rotate_about_def)
qed (simp_all add: all_points_rotate_Some rotate_None)

theorem rotate_threads_one_pivot_witness:
  "list_all finite_vector (all_points grp) \<and> list_all finite_vector (origin grp # all_points grp) \<and>
   all_points (rotate grp (Finite 0) (Some (V2 1 1))) =
     map (\<lambda>q. Vector2_add (Vector2_rotate (Vector2_sub q (V2 1 1)) (Finite 0)) (V2 1 1))
       (all_points grp) \<and>
   all_points (rotate grp (Finite 0) None) =
     map (\<lambda>q. Vector2_add (Vector2_rotate (Vector2_sub q (origin grp)) (Finite 0)) (origin grp))
       (all_points grp)"
proof -
  have 1: "list_all finite_vector (all_points grp)"
    and 2: "list_all finite_vector (origin grp # all_points grp)"
    using finite_grp by (simp_all add: grp_def finite_vector_def V2_def)
  from rotate_threads_one_pivot [of grp "Finite 0" "V2 1 1"] 1 2 show ?thesis by blast
qed

text \<open>
  C5 as stated fails when the pivot is omitted and the origin of \<open>d\<close> is not finite: the pivot
  used is the origin of the copy, \<open>(null, 0)\<close> for \<open>far\<close>, and a rotation by the angle \<open>0\<close> leaves
  the points of \<open>far\<close> where they were, while rotating the point \<open>(1, 0)\<close> about the origin
  \<open>(Infinity, 0)\<close> of \<open>far\<close> itself gives \<open>(NaN, NaN)\<close>.
\<close>

theorem rotate_uses_the_origin_of_the_copy:
  "all_points far = [V2 1 0, V2 2 0] \<and>
   all_points (rotate far (Finite 0) None) = [V2 1 0, V2 2 0] \<and>
   Vector2_add (Vector2_rotate (Vector2_sub (V2 1 0) (origin far)) (Finite 0)) (origin far)
     = Vector2 (Num NaN) (Num NaN)"
  by (simp add: far_def rotate_MkDiagram Path_rotate_def JSON_Path_def JSON_Vector2_def
        Vector2_add_def Vector2_sub_def Vector2_rotate_def number_sub_def V2_def Let_def
        double_small double_0)

text \<open>
  C9, as the code has it. \<open>rotate\<close> never assigns an origin, so every node of the result has
  the origin of the copy made with \<open>JSON\<close>: the origin of the corresponding node of \<open>d\<close> when
  that is finite.
\<close>

theorem rotate_keeps_every_origin:
  "all_origins (rotate d a pivot) = map JSON_Vector2 (all_origins d) \<and>
   (list_all finite_vector (all_origins d) \<longrightarrow> all_origins (rotate d a pivot) = all_origins d)"
proof -
  have 1: "all_origins (rotate d a pivot) = map JSON_Vector2 (all_origins d)"
  proof (induction d arbitrary: pivot)
    case (MkDiagram ty ch pa og cs cf)
    have IH: "\<And>c p. c \<in> set ch \<Longrightarrow>
        all_origins (rotate (snd c) a (Some p)) = map JSON_Vector2 (all_origins (snd c))"
      using MkDiagram by (auto simp: snds.simps)
    show ?case
      by (simp add: rotate_MkDiagram comp_def Let_def map_concat IH cong: map_cong)
  qed
  moreover have "map JSON_Vector2 (all_origins d) = all_origins d"
    if "list_all finite_vector (all_origins d)"
    using map_finite_JSON[OF that, where f = "\<lambda>q. q"] by simp
  ultimately show ?thesis by simp
qed

theorem rotate_keeps_every_origin_witness:
  "list_all finite_vector (all_origins grp) \<and>
   all_origins (rotate grp (Finite 1) None) = all_origins grp"
proof -
  have 1: "list_all finite_vector (all_origins grp)"
    using finite_grp by simp
  from rotate_keeps_every_origin [of grp "Finite 1" None] 1 show ?thesis by blast
qed

text \<open>
  C9 as stated fails on an origin that is not finite: the origin \<open>(Infinity, 0)\<close> of \<open>far\<close> is
  \<open>(null, 0)\<close> in the result.
\<close>

theorem rotate_loses_infinite_origin:
  "origin (rotate far (Finite 0) None) = Vector2 Null (Num (Finite 0)) \<and>
   origin far = Vector2 (Num Infinity) (Num (Finite 0))"
  by (simp add: far_def rotate_MkDiagram JSON_Vector2_def Let_def)

section \<open>Positioning\<close>

lemma double_vector_finite: "double_vector v \<Longrightarrow> finite_vector v"
  by (cases v; cases "vx v" rule: double_coordinate.cases; cases "vy v" rule: double_coordinate.cases)
     (simp_all add: double_vector_def finite_vector_def)

lemma Vector2_add_zero: "double_vector q \<Longrightarrow> Vector2_add q (V2 0 0) = q"
  by (cases q; cases "vx q" rule: double_coordinate.cases; cases "vy q" rule: double_coordinate.cases)
     (simp_all add: double_vector_def Vector2_add_def V2_def is_double_def)

lemma Path_translate_zero:
  "list_all double_vector (points p) \<Longrightarrow> Path_translate (JSON_Path p) (V2 0 0) = p"
proof -
  assume a: "list_all double_vector (points p)"
  have "map (\<lambda>q. Vector2_add (JSON_Vector2 q) (V2 0 0)) (points p) = points p"
    by (rule map_idI)
       (use a in \<open>auto simp: list_all_iff JSON_finite_vector double_vector_finite Vector2_add_zero\<close>)
  then show ?thesis
    by (cases p) (simp add: Path_translate_def JSON_Path_def comp_def)
qed

lemma translate_zero:
  "list_all double_vector (all_origins d @ all_points d) \<Longrightarrow> translate d (V2 0 0) = d"
proof (induction d)
  case (MkDiagram ty ch pa og cs cf)
  have IH: "translate (snd c) (V2 0 0) = snd c" if "c \<in> set ch" for c
  proof -
    from that MkDiagram.prems
    have "list_all double_vector (all_origins (snd c) @ all_points (snd c))"
      by (auto simp: list_all_iff)
    with that MkDiagram.IH[of c "snd c"] show ?thesis
      by (cases c) (auto simp: snds.simps)
  qed
  have ch: "map (\<lambda>c. (fst c, translate (snd c) (V2 0 0))) ch = ch"
    by (rule map_idI) (simp add: IH)
  have "Path_translate (JSON_Path (snd p)) (V2 0 0) = snd p" if "p \<in> set pa" for p
    using that MkDiagram.prems by (intro Path_translate_zero) (auto simp: list_all_iff)
  then have pa: "map (\<lambda>p. (fst p, Path_translate (JSON_Path (snd p)) (V2 0 0))) pa = pa"
    by (intro map_idI) simp
  have "double_vector og" using MkDiagram.prems by simp
  then have "Vector2_add (JSON_Vector2 og) (V2 0 0) = og"
    by (simp add: JSON_finite_vector double_vector_finite Vector2_add_zero)
  with ch pa show ?case by (simp add: translate_MkDiagram)
qed

lemma origin_position:
  "origin (position d v) = Vector2_add (JSON_Vector2 (origin d)) (Vector2_sub v (origin d))"
  by (simp add: position_def origin_translate)

lemma origin_position_exact:
  assumes "origin d = V2 ox oy" "v = V2 x y"
    and "is_double x" "is_double y" "is_double (x - ox)" "is_double (y - oy)"
  shows "origin (position d v) = v"
  using assms
  by (simp add: origin_position V2_def JSON_Vector2_def Vector2_add_def Vector2_sub_def
        number_sub_def is_double_def)

lemma Vector2_sub_self: "Vector2_sub (V2 x y) (V2 x y) = V2 0 0"
  by (simp add: Vector2_sub_def V2_def number_sub_def double_def)

text \<open>
  C4, as the code has it. \<open>position(v)\<close> is \<open>translate(v - origin)\<close>, so the origin of the result
  is \<open>origin + (v - origin)\<close>, computed with two roundings. It is \<open>v\<close> when the origin of \<open>d\<close>
  and \<open>v\<close> are finite and the difference \<open>v - origin\<close> is exact in both coordinates. Then a
  second \<open>position(v)\<close> translates by the zero vector and returns an equal tree, with the same
  origin and the same bounding box, provided that all coordinates of the first result are
  finite.
\<close>

theorem position_is_translate_and_idempotent:
  "position d v = translate d (Vector2_sub v (origin d)) \<and>
   origin (position d v) = Vector2_add (JSON_Vector2 (origin d)) (Vector2_sub v (origin d)) \<and>
   (origin d = V2 ox oy \<and> v = V2 x y \<and> is_double x \<and> is_double y \<and>
    is_double (x - ox) \<and> is_double (y - oy) \<longrightarrow>
      origin (position d v) = v \<and>
      (list_all double_vector (all_origins (position d v) @ all_points (position d v)) \<longrightarrow>
         position (position d v) v = position d v \<and>
         origin (position (position d v) v) = origin (position d v) \<and>
         bounding_box (position (position d v) v) = bounding_box (position d v)))"
proof (intro conjI impI)
  show "position d v = translate d (Vector2_sub v (origin d))"
    by (simp add: position_def)
  show "origin (position d v) = Vector2_add (JSON_Vector2 (origin d)) (Vector2_sub v (origin d))"
    by (rule origin_position)
next
  assume h: "origin d = V2 ox oy \<and> v = V2 x y \<and> is_double x \<and> is_double y \<and>
    is_double (x - ox) \<and> is_double (y - oy)"
  then show o: "origin (position d v) = v"
    by (intro origin_position_exact[of d ox oy v x y]) simp_all
  assume "list_all double_vector (all_origins (position d v) @ all_points (position d v))"
  then have z: "translate (position d v) (V2 0 0) = position d v"
    by (rule translate_zero)
  define d1 where "d1 = position d v"
  have "position d1 v = translate d1 (Vector2_sub v (origin d1))"
    by (simp add: position_def)
  also have "Vector2_sub v (origin d1) = V2 0 0"
    using h o by (simp add: d1_def Vector2_sub_self)
  finally show twice: "position (position d v) v = position d v"
    using z by (simp add: d1_def)
  then show "origin (position (position d v) v) = origin (position d v)"
    and "bounding_box (position (position d v) v) = bounding_box (position d v)"
    by simp_all
qed

lemma position_tri8:
  "position tri8 (V2 2 3) = MkDiagram Polygon []
     [(''path0'', Path [V2 2 3, V2 6 5]), (''path1'', Path [V2 6 5, V2 3 8])] (V2 2 3) None None"
  by (simp add: tri8_def position_def translate_MkDiagram Path_translate_def JSON_Path_def
        JSON_Vector2_def Vector2_add_def Vector2_sub_def number_sub_def V2_def double_small double_0)

theorem position_is_translate_and_idempotent_witness:
  "origin tri8 = V2 8 0 \<and> is_double 2 \<and> is_double 3 \<and> is_double (2 - 8) \<and> is_double (3 - 0) \<and>
   origin (position tri8 (V2 2 3)) = V2 2 3 \<and>
   list_all double_vector
     (all_origins (position tri8 (V2 2 3)) @ all_points (position tri8 (V2 2 3))) \<and>
   position (position tri8 (V2 2 3)) (V2 2 3) = position tri8 (V2 2 3) \<and>
   bounding_box (position (position tri8 (V2 2 3)) (V2 2 3)) = bounding_box (position tri8 (V2 2 3))"
proof -
  have o: "origin tri8 = V2 8 0" by (simp add: tri8_def)
  have d: "is_double 2" "is_double 3" "is_double (2 - 8)" "is_double (3 - 0)"
    by (simp_all add: is_double_def double_small)
  have a: "list_all double_vector
     (all_origins (position tri8 (V2 2 3)) @ all_points (position tri8 (V2 2 3)))"
    by (simp add: position_tri8) (simp add: double_vector_def V2_def is_double_def double_small)
  from position_is_translate_and_idempotent [of tri8 "V2 2 3" 8 0 2 3] o d a
  show ?thesis by blast
qed

text \<open>
  C4 as stated fails when the subtraction rounds. For \<open>tri8\<close>, with origin \<open>(8, 0)\<close>, and
  \<open>v = v94\<close>, the double nearest to \<open>-9.4\<close>: the origin after \<open>position(v)\<close> is the next double
  above \<open>v\<close> (\<open>-9.399999999999999\<close>), not \<open>v\<close>, and a second \<open>position(v)\<close> moves it to \<open>v\<close>, so
  that \<open>position\<close> is not idempotent either.
\<close>

lemma origin_position_tri8: "origin (position tri8 v94) = V2 (- 5291729562160332 / 2 ^ 49) 0"
  using double_94
  by (simp add: tri8_def v94_def origin_position JSON_Vector2_def Vector2_add_def
        Vector2_sub_def number_sub_def V2_def double_0)

theorem position_misses_the_target:
  "v94 = V2 (- 5291729562160333 / 2 ^ 49) 0 \<and>
   origin tri8 = V2 8 0 \<and>
   origin (position tri8 v94) = V2 (- 5291729562160332 / 2 ^ 49) 0 \<and>
   origin (position (position tri8 v94) v94) = V2 (- 5291729562160333 / 2 ^ 49) 0"
  using double_94_again
  by (simp add: origin_position[of "position tri8 v94"] origin_position_tri8)
     (simp add: tri8_def v94_def JSON_Vector2_def Vector2_add_def Vector2_sub_def number_sub_def
        V2_def double_0)

section \<open>Bounding boxes\<close>



lemma Math_min_Infinity [simp]: "Math_min a Infinity = a"
  by (cases a) simp_all

lemma Math_max_NegInfinity [simp]: "Math_max a NegInfinity = a"
  by (cases a) simp_all

lemma finite_values_Nil: "finite_values ns = [] \<longleftrightarrow> (\<forall>a. Finite a \<notin> set ns)"
  by (induction ns rule: finite_values.induct) auto




















section \<open>Parametric points\<close>

text \<open>
  C8. \<open>get_parametric_point(t)\<close> fails with the unsupported-operation error exactly when the
  path has more than 2 points; on a path of one or two points with first point \<open>s\<close> and last
  point \<open>e\<close> it returns \<open>s + t * (e - s)\<close>; on the path from \<open>(0,0)\<close> to \<open>(4,2)\<close> it returns
  \<open>(2,1)\<close> at \<open>t = 0.5\<close>. (A path without points makes the call fail with a \<open>TypeError\<close>.)
\<close>

theorem get_parametric_point_linear:
  "(get_parametric_point p t = Inl unsupported_operation \<longleftrightarrow> 2 < length (points p)) \<and>
   (points p \<noteq> [] \<longrightarrow> ((\<exists>e. get_parametric_point p t = Inl e) \<longleftrightarrow> 2 < length (points p))) \<and>
   (points p \<noteq> [] \<and> length (points p) \<le> 2 \<longrightarrow>
      get_parametric_point p t =
        Inr (Vector2_add (hd (points p))
               (Vector2_scale (Vector2_sub (last (points p)) (hd (points p))) t))) \<and>
   get_parametric_point (Path [V2 0 0, V2 4 2]) (Finite (1 / 2)) = Inr (V2 2 1)"
proof -
  have "get_parametric_point (Path [V2 0 0, V2 4 2]) (Finite (1 / 2)) = Inr (V2 2 1)"
    by (simp add: get_parametric_point_def Vector2_add_def Vector2_sub_def Vector2_scale_def
          number_sub_def V2_def double_small double_4 double_0)
  then show ?thesis
    by (cases "points p")
       (auto simp: get_parametric_point_def unsupported_operation_def Let_def)
qed

theorem get_parametric_point_linear_witness:
  "[V2 1 1, V2 3 5] \<noteq> [] \<and> length [V2 1 1, V2 3 5] \<le> 2 \<and>
   get_parametric_point (Path [V2 1 1, V2 3 5]) (Finite (1 / 2)) =
     Inr (Vector2_add (V2 1 1) (Vector2_scale (Vector2_sub (V2 3 5) (V2 1 1)) (Finite (1 / 2)))) \<and>
   Vector2_add (V2 1 1) (Vector2_scale (Vector2_sub (V2 3 5) (V2 1 1)) (Finite (1 / 2))) = V2 2 3 \<and>
   get_parametric_point (Path [V2 1 1, V2 3 5, V2 0 0]) (Finite (1 / 2)) = Inl unsupported_operation"
proof -
  have "Vector2_add (V2 1 1) (Vector2_scale (Vector2_sub (V2 3 5) (V2 1 1)) (Finite (1 / 2))) = V2 2 3"
    by (simp add: Vector2_add_def Vector2_sub_def Vector2_scale_def number_sub_def V2_def
          double_small double_4)
  then show ?thesis
    using get_parametric_point_linear [of "Path [V2 1 1, V2 3 5]" "Finite (1 / 2)"]
      get_parametric_point_linear [of "Path [V2 1 1, V2 3 5, V2 0 0]" "Finite (1 / 2)"]
    by simp
qed

section \<open>Stores into a dictionary\<close>

lemma keys_insert_index: "fst ` set (insert_index n e al) = insert (fst e) (fst ` set al)"
  by (induction al) (auto split: option.splits)

lemma map_of_insert_index:
  "fst e \<notin> fst ` set al \<Longrightarrow> map_of (insert_index n e al) = (map_of al)(fst e \<mapsto> snd e)"
  by (induction al) (auto split: option.splits simp: fun_upd_twist)

lemma distinct_insert_index:
  "fst e \<notin> fst ` set al \<Longrightarrow> distinct (map fst al) \<Longrightarrow> distinct (map fst (insert_index n e al))"
  by (induction al) (auto split: option.splits simp: keys_insert_index)

lemma map_of_append_fresh:
  "k \<notin> fst ` set al \<Longrightarrow> map_of (al @ [(k, v)]) = (map_of al)(k \<mapsto> v)"
  by (induction al) (auto simp: fun_upd_twist simp del: map_of_append)

lemma keys_insert_property: "fst ` set (insert_property k v al) = insert k (fst ` set al)"
  by (simp add: insert_property_def keys_insert_index split: option.splits)

lemma map_of_insert_property:
  "k \<notin> fst ` set al \<Longrightarrow> map_of (insert_property k v al) = (map_of al)(k \<mapsto> v)"
  by (simp add: insert_property_def map_of_insert_index map_of_append_fresh
      del: map_of_append split: option.splits)

lemma distinct_insert_property:
  "k \<notin> fst ` set al \<Longrightarrow> distinct (map fst al) \<Longrightarrow> distinct (map fst (insert_property k v al))"
  by (auto simp: insert_property_def distinct_insert_index split: option.splits)

lemma keys_store_property:
  "fst ` set (fst (store_property k v d)) =
     (if sets_prototype (fst d) k then fst ` set (fst d) else insert k (fst ` set (fst d)))"
  by (cases d) (auto simp: store_property_def sets_prototype_def keys_insert_property dom_update)

lemma map_of_store_property:
  "map_of (fst (store_property k v d)) =
     (if sets_prototype (fst d) k then map_of (fst d) else (map_of (fst d))(k \<mapsto> v))"
  by (cases d) (auto simp: store_property_def sets_prototype_def map_of_insert_property update_conv')

lemma distinct_store_property:
  "distinct (map fst (fst d)) \<Longrightarrow> distinct (map fst (fst (store_property k v d)))"
  by (cases d) (auto simp: store_property_def distinct_insert_property distinct_update)

lemma snd_store_property:
  "snd (store_property k v d) = (if sets_prototype (fst d) k then Some v else snd d)"
  by (cases d) (auto simp: store_property_def sets_prototype_def)

lemma store_all_Suc:
  "store_all f g (Suc n) al =
     store_property (f n) (g n) (store_all f g n al)"
  by (simp add: store_all_def)

lemma keys_store_all:
  "fst ` set (fst (store_all f g n al)) =
     fst ` set al \<union> {f i |i. i < n \<and> \<not> sets_prototype al (f i)}"
proof (induction n)
  case 0
  show ?case by (simp add: store_all_def)
next
  case (Suc n)
  have inv: "sets_prototype (fst (store_all f g n al)) k \<longleftrightarrow> sets_prototype al k" for k
    unfolding sets_prototype_def Suc by (auto simp: sets_prototype_def)
  show ?case
    unfolding store_all_Suc keys_store_property inv Suc
    by (auto simp: less_Suc_eq)
qed

lemma sets_prototype_store_all:
  "sets_prototype (fst (store_all f g n al)) k \<longleftrightarrow> sets_prototype al k"
  unfolding sets_prototype_def keys_store_all by (auto simp: sets_prototype_def)

lemma map_of_store_all_Suc:
  "map_of (fst (store_all f g (Suc n) al)) =
     (if sets_prototype al (f n) then map_of (fst (store_all f g n al))
      else (map_of (fst (store_all f g n al)))(f n \<mapsto> g n))"
  by (simp add: store_all_Suc map_of_store_property sets_prototype_store_all)

lemma snd_store_all_Suc:
  "snd (store_all f g (Suc n) al) =
     (if sets_prototype al (f n) then Some (g n) else snd (store_all f g n al))"
  by (simp add: store_all_Suc snd_store_property sets_prototype_store_all)

lemma distinct_store_all:
  "distinct (map fst al) \<Longrightarrow> distinct (map fst (fst (store_all f g n al)))"
  by (induction n) (simp_all add: store_all_Suc distinct_store_property, simp add: store_all_def)

lemma map_of_store_all_last:
  "i < n \<Longrightarrow> \<not> sets_prototype al (f i) \<Longrightarrow> (\<forall>j. i < j \<and> j < n \<longrightarrow> f j \<noteq> f i) \<Longrightarrow>
     map_of (fst (store_all f g n al)) (f i) = Some (g i)"
proof (induction n)
  case 0
  then show ?case by simp
next
  case (Suc n)
  show ?case
  proof (cases "i = n")
    case True
    with Suc.prems show ?thesis by (simp add: map_of_store_all_Suc)
  next
    case False
    with Suc.prems have "i < n" "f n \<noteq> f i" "\<forall>j. i < j \<and> j < n \<longrightarrow> f j \<noteq> f i"
      by auto
    with Suc.IH Suc.prems(2) show ?thesis by (simp add: map_of_store_all_Suc)
  qed
qed

lemma map_of_store_all_other:
  "(\<forall>i<n. f i \<noteq> k) \<Longrightarrow> map_of (fst (store_all f g n al)) k = map_of al k"
proof (induction n)
  case 0
  then show ?case by (simp add: store_all_def)
next
  case (Suc n)
  then have "f n \<noteq> k" and "\<forall>i<n. f i \<noteq> k" by auto
  with Suc.IH show ?case by (simp add: map_of_store_all_Suc)
qed

lemma map_of_store_all_prototype:
  "sets_prototype al k \<Longrightarrow> map_of (fst (store_all f g n al)) k = None"
proof -
  assume "sets_prototype al k"
  then have "k \<notin> fst ` set (fst (store_all f g n al))"
    unfolding keys_store_all by (force simp: sets_prototype_def)
  then show ?thesis by (simp add: map_of_eq_None_iff)
qed

lemma snd_store_all_last:
  "i < n \<Longrightarrow> sets_prototype al (f i) \<Longrightarrow> (\<forall>j. i < j \<and> j < n \<longrightarrow> f j \<noteq> f i) \<Longrightarrow>
     snd (store_all f g n al) = Some (g i)"
proof (induction n)
  case 0
  then show ?case by simp
next
  case (Suc n)
  show ?case
  proof (cases "i = n")
    case True
    with Suc.prems show ?thesis by (simp add: snd_store_all_Suc)
  next
    case False
    with Suc.prems have i: "i < n" "f n \<noteq> f i" "\<forall>j. i < j \<and> j < n \<longrightarrow> f j \<noteq> f i"
      by auto
    with Suc.prems(2) have "\<not> sets_prototype al (f n)"
      by (auto simp: sets_prototype_def)
    with Suc.IH i Suc.prems(2) show ?thesis by (simp add: snd_store_all_Suc)
  qed
qed

lemma snd_store_all_none:
  "(\<forall>i<n. \<not> sets_prototype al (f i)) \<Longrightarrow> snd (store_all f g n al) = None"
  by (induction n) (simp_all add: snd_store_all_Suc, simp add: store_all_def)

lemma insert_property_append:
  "array_index k = None \<Longrightarrow> insert_property k v al = al @ [(k, v)]"
  by (simp add: insert_property_def)

lemma store_all_in_order:
  "distinct (map f [0..<n]) \<Longrightarrow> (\<forall>i<n. f i \<noteq> ''__proto__'' \<and> array_index (f i) = None) \<Longrightarrow>
     store_all f g n [] = (map (\<lambda>i. (f i, g i)) [0..<n], None)"
proof (induction n)
  case 0
  then show ?case by (simp add: store_all_def)
next
  case (Suc n)
  then have "f n \<notin> fst ` set (map (\<lambda>i. (f i, g i)) [0..<n])"
    by (auto simp: image_iff)
  with Suc show ?case
    by (simp add: store_all_Suc store_property_def insert_property_append)
qed

lemma last_given_map:
  "last_given (map f [0..<n]) i \<longleftrightarrow> i < n \<and> (\<forall>j. i < j \<and> j < n \<longrightarrow> f j \<noteq> f i)"
proof -
  have "drop (Suc i) (map f [0..<n]) = map f [Suc i..<n]"
    by (simp add: drop_map)
  moreover have "f i \<notin> f ` {Suc i..<n} \<longleftrightarrow> (\<forall>j. i < j \<and> j < n \<longrightarrow> f j \<noteq> f i)"
  proof
    assume a: "f i \<notin> f ` {Suc i..<n}"
    show "\<forall>j. i < j \<and> j < n \<longrightarrow> f j \<noteq> f i"
    proof (intro allI impI)
      fix j assume "i < j \<and> j < n"
      then have "j \<in> {Suc i..<n}" by simp
      with a show "f j \<noteq> f i" by (metis imageI)
    qed
  next
    assume "\<forall>j. i < j \<and> j < n \<longrightarrow> f j \<noteq> f i"
    then show "f i \<notin> f ` {Suc i..<n}" by (auto simp: Suc_le_eq)
  qed
  ultimately show ?thesis
    by (auto simp: last_given_def simp del: drop_map)
qed

lemma last_given_Cons: "last_given (x # xs) (Suc i) \<longleftrightarrow> last_given xs i"
  by (simp add: last_given_def)

lemma last_given_exists: "k \<in> set ks \<Longrightarrow> \<exists>i. last_given ks i \<and> ks ! i = k"
proof (induction ks)
  case Nil
  then show ?case by simp
next
  case (Cons x xs)
  show ?case
  proof (cases "k \<in> set xs")
    case True
    with Cons.IH obtain i where "last_given xs i" "xs ! i = k" by blast
    then have "last_given (x # xs) (Suc i) \<and> (x # xs) ! Suc i = k"
      by (simp add: last_given_Cons)
    then show ?thesis by blast
  next
    case False
    with Cons.prems have "last_given (x # xs) 0 \<and> (x # xs) ! 0 = k"
      by (simp add: last_given_def)
    then show ?thesis by blast
  qed
qed

lemma snd_store_all_None_iff:
  "snd (store_all f g n al) = None \<longleftrightarrow> (\<forall>i<n. \<not> sets_prototype al (f i))"
  by (induction n) (simp add: store_all_def, auto simp: snd_store_all_Suc less_Suc_eq)

lemma store_all_last_write_wins:
  "last_write_wins al vs names
     (fst (store_all (property_name names) (\<lambda>i. vs ! i) (length vs) al))
     (snd (store_all (property_name names) (\<lambda>i. vs ! i) (length vs) al))"
proof -
  let ?n = "length vs"
  let ?f = "property_name names"
  let ?ks = "names_given names ?n"
  let ?r = "store_all ?f (\<lambda>i. vs ! i) ?n al"
  have nth: "?ks ! i = ?f i" if "i < ?n" for i
    using that by (simp add: names_given_def)
  have lg: "last_given ?ks i \<longleftrightarrow> i < ?n \<and> (\<forall>j. i < j \<and> j < ?n \<longrightarrow> ?f j \<noteq> ?f i)" for i
    unfolding names_given_def by (rule last_given_map)
  have set: "set ?ks = {?f i |i. i < ?n}"
    by (auto simp: names_given_def)
  have 1: "map_of (fst ?r) (?ks ! i) = Some (vs ! i)"
    if "last_given ?ks i \<and> \<not> sets_prototype al (?ks ! i)" for i
  proof -
    from that have i: "i < ?n" "\<forall>j. i < j \<and> j < ?n \<longrightarrow> ?f j \<noteq> ?f i"
      by (simp_all add: lg)
    with that have "\<not> sets_prototype al (?f i)" by (simp add: nth)
    with i have "map_of (fst ?r) (?f i) = Some (vs ! i)"
      by (intro map_of_store_all_last) simp_all
    with i show ?thesis by (simp add: nth)
  qed
  have 2: "map_of (fst ?r) k = map_of al k" if "k \<notin> set ?ks" for k
    using that by (intro map_of_store_all_other) (auto simp: set)
  have 3: "fst ` set (fst ?r) = fst ` set al \<union> {k \<in> set ?ks. \<not> sets_prototype al k}"
    unfolding keys_store_all set by auto
  have 4: "distinct (map fst (fst ?r)) \<and>
      length (fst ?r) = card (fst ` set al \<union> {k \<in> set ?ks. \<not> sets_prototype al k})"
    if "distinct (map fst al)"
  proof -
    have d: "distinct (map fst (fst ?r))"
      using that by (rule distinct_store_all)
    then have "card (set (map fst (fst ?r))) = length (map fst (fst ?r))"
      by (rule distinct_card)
    with d 3 show ?thesis by simp
  qed
  have 5: "snd ?r = Some (vs ! i)" if "last_given ?ks i \<and> sets_prototype al (?ks ! i)" for i
  proof -
    from that have i: "i < ?n" "\<forall>j. i < j \<and> j < ?n \<longrightarrow> ?f j \<noteq> ?f i"
      by (simp_all add: lg)
    with that have "sets_prototype al (?f i)" by (simp add: nth)
    with i show ?thesis
      by (intro snd_store_all_last) simp_all
  qed
  have 6: "snd ?r = None \<longleftrightarrow> (\<forall>k \<in> set ?ks. \<not> sets_prototype al k)"
    unfolding snd_store_all_None_iff set by auto
  show ?thesis
    unfolding last_write_wins_def Let_def using 1 2 3 4 5 6 by blast
qed

lemma toString_small: "toString 0 = ''0''" "toString (Suc 0) = ''1''"
  by code_simp+

lemma array_index_small:
  "array_index ''0'' = Some 0" "array_index ''1'' = Some 1"
  "array_index ''a'' = None" "array_index ''b'' = None" "array_index ''e'' = None"
  "array_index ''base'' = None" "array_index ''path1'' = None"
  by (simp_all add: array_index_def digit_value_def toString_small)

lemma sets_prototype_small:
  "\<not> sets_prototype al ''a''" "\<not> sets_prototype al ''b''" "\<not> sets_prototype al ''e''"
  by (simp_all add: sets_prototype_def)

section \<open>Attaching children and paths\<close>

lemma add_childs_store_all:
  "add_childs d childs names =
     (MkDiagram (type d)
        (fst (store_all (property_name names) (\<lambda>i. childs ! i) (length childs) (children d)))
        (paths d) (origin d) (color_stroke d) (color_fill d),
      snd (store_all (property_name names) (\<lambda>i. childs ! i) (length childs) (children d)))"
  by (cases d) (simp add: add_childs_def store_all_def split: prod.splits)

lemma add_paths_Inr:
  "type d \<noteq> Diagram \<Longrightarrow>
   add_paths d ps names =
     Inr (MkDiagram (type d) (children d)
            (fst (store_all (property_name names) (\<lambda>i. ps ! i) (length ps) (paths d)))
            (origin d) (color_stroke d) (color_fill d),
          snd (store_all (property_name names) (\<lambda>i. ps ! i) (length ps) (paths d)))"
  by (cases d) (simp add: add_paths_def store_all_def split: prod.splits)

lemma add_paths_Inl:
  "type d = Diagram \<Longrightarrow> add_paths d ps names = Inl (Error ''Diagram cannot have paths'')"
  by (cases d) (simp add: add_paths_def)

text \<open>
  C10, as the code has it. \<open>add_childs\<close> and \<open>add_paths\<close> resolve name collisions by last write
  wins, without raising: a name is bound to the last entry supplied for it, whether it
  collides with an earlier supplied name or with a name already on the node; names that are
  not supplied keep their entry; the node has one entry for each name it had or was given.
  The exception is the name \<open>"__proto__"\<close> on a dictionary that has no entry of that name: the
  store adds no entry and makes the last object given under that name the prototype of the
  dictionary. \<open>add_childs\<close> cannot fail; \<open>add_paths\<close> fails on a Group only, whatever the names.
  Both leave the other fields of the node as they were.
\<close>

theorem add_childs_add_paths_last_write_wins:
  "last_write_wins (children d) childs names
     (children (fst (add_childs d childs names))) (snd (add_childs d childs names)) \<and>
   type (fst (add_childs d childs names)) = type d \<and>
   paths (fst (add_childs d childs names)) = paths d \<and>
   origin (fst (add_childs d childs names)) = origin d \<and>
   ((\<exists>e. add_paths d ps names = Inl e) \<longleftrightarrow> type d = Diagram) \<and>
   (type d \<noteq> Diagram \<longrightarrow>
      (\<exists>d' proto. add_paths d ps names = Inr (d', proto) \<and>
         last_write_wins (paths d) ps names (paths d') proto \<and>
         type d' = type d \<and> children d' = children d \<and> origin d' = origin d))"
proof (intro conjI impI)
  show "last_write_wins (children d) childs names
     (children (fst (add_childs d childs names))) (snd (add_childs d childs names))"
    by (simp add: add_childs_store_all store_all_last_write_wins)
  show "(\<exists>e. add_paths d ps names = Inl e) \<longleftrightarrow> type d = Diagram"
    by (cases "type d = Diagram") (simp_all add: add_paths_Inl add_paths_Inr)
next
  assume "type d \<noteq> Diagram"
  then show "\<exists>d' proto. add_paths d ps names = Inr (d', proto) \<and>
         last_write_wins (paths d) ps names (paths d') proto \<and>
         type d' = type d \<and> children d' = children d \<and> origin d' = origin d"
    by (simp add: add_paths_Inr store_all_last_write_wins)
qed (simp_all add: add_childs_store_all)

theorem add_childs_add_paths_last_write_wins_witness:
  "map_of (children (fst (add_childs (MkDiagram Diagram [(''a'', new_Diagram Curve)] [] (V2 0 0) None None)
       [new_Diagram Polygon, new_Diagram Curve, new_Diagram Diagram] [''a'', ''b'', ''a'']))) ''a''
     = Some (new_Diagram Diagram) \<and>
   length (children (fst (add_childs (MkDiagram Diagram [(''a'', new_Diagram Curve)] [] (V2 0 0) None None)
       [new_Diagram Polygon, new_Diagram Curve, new_Diagram Diagram] [''a'', ''b'', ''a'']))) = 2 \<and>
   snd (add_childs (MkDiagram Diagram [(''a'', new_Diagram Curve)] [] (V2 0 0) None None)
       [new_Diagram Polygon, new_Diagram Curve, new_Diagram Diagram] [''a'', ''b'', ''a'']) = None \<and>
   map_of (children (fst (add_childs (MkDiagram Diagram [(''a'', new_Diagram Curve)] [] (V2 0 0) None None)
       [new_Diagram Polygon] [''b'']))) ''a''
     = Some (new_Diagram Curve) \<and>
   type (new_Diagram Polygon) \<noteq> Diagram \<and>
   (\<exists>d' proto. add_paths (new_Diagram Polygon) [Path [V2 0 0, V2 1 0], Path [V2 1 0, V2 1 1]]
            [''e'', ''e''] = Inr (d', proto) \<and>
         map_of (paths d') ''e'' = Some (Path [V2 1 0, V2 1 1]) \<and> length (paths d') = 1) \<and>
   (\<exists>e. add_paths (new_Diagram Diagram) [Path [V2 0 0, V2 1 0]] [''e''] = Inl e)"
proof -
  let ?D = "MkDiagram Diagram [(''a'', new_Diagram Curve)] [] (V2 0 0) None None"
  let ?cs = "[new_Diagram Polygon, new_Diagram Curve, new_Diagram Diagram]"
  let ?ns = "[''a'', ''b'', ''a'']"
  let ?ps = "[Path [V2 0 0, V2 1 0], Path [V2 1 0, V2 1 1]]"
  note t1 = add_childs_add_paths_last_write_wins [of ?D ?cs ?ns ?ps]
  note t2 = add_childs_add_paths_last_write_wins [of ?D "[new_Diagram Polygon]" "[''b'']" ?ps]
  note t3 = add_childs_add_paths_last_write_wins [of "new_Diagram Polygon" ?cs "[''e'', ''e'']" ?ps]
  note t4 = add_childs_add_paths_last_write_wins [of "new_Diagram Diagram" ?cs "[''e'']" "[Path [V2 0 0, V2 1 0]]"]
  have g1: "names_given ?ns (length ?cs) = ?ns"
    by (simp add: names_given_def property_name_def upt_rec)
  have g2: "names_given [''b''] (length [new_Diagram Polygon]) = [''b'']"
    by (simp add: names_given_def property_name_def upt_rec)
  have g3: "names_given [''e'', ''e''] (length ?ps) = [''e'', ''e'']"
    by (simp add: names_given_def property_name_def upt_rec)
  note sp = sets_prototype_small
  have lg1: "last_given ?ns 2" by (simp add: last_given_def)
  have lg3: "last_given [''e'', ''e''] 1" by (simp add: last_given_def)
  have s1: "{k \<in> set ?ns. \<not> sets_prototype (children ?D) k} = {''a'', ''b''}"
    by (auto simp: sp)
  have s3: "{k \<in> set [''e'', ''e'']. \<not> sets_prototype (paths (new_Diagram Polygon)) k} = {''e''}"
    by (auto simp: sp)
  from t1 have l1: "last_write_wins (children ?D) ?cs ?ns
      (children (fst (add_childs ?D ?cs ?ns))) (snd (add_childs ?D ?cs ?ns))"
    by (rule conjunct1)
  have a: "map_of (children (fst (add_childs ?D ?cs ?ns))) ''a'' = Some (new_Diagram Diagram)"
    using l1 [unfolded last_write_wins_def Let_def g1, THEN conjunct1, rule_format, of 2] lg1
    by (simp add: sp)
  have "{''a'', ''b'', ''a''} = {''a'', ''b''}" by auto
  then have c1: "card {''a'', ''b'', ''a''} = 2" by simp
  have b: "length (children (fst (add_childs ?D ?cs ?ns))) = 2"
    using c1 l1 [unfolded last_write_wins_def Let_def g1 s1, THEN conjunct2, THEN conjunct2,
        THEN conjunct2, THEN conjunct1]
    by simp
  have c: "snd (add_childs ?D ?cs ?ns) = None"
    using l1 [unfolded last_write_wins_def Let_def g1, THEN conjunct2, THEN conjunct2,
        THEN conjunct2, THEN conjunct2, THEN conjunct2]
    by (simp add: sp)
  from t2 have l2: "last_write_wins (children ?D) [new_Diagram Polygon] [''b'']
      (children (fst (add_childs ?D [new_Diagram Polygon] [''b''])))
      (snd (add_childs ?D [new_Diagram Polygon] [''b'']))"
    by (rule conjunct1)
  have d: "map_of (children (fst (add_childs ?D [new_Diagram Polygon] [''b'']))) ''a''
      = Some (new_Diagram Curve)"
    using l2 [unfolded last_write_wins_def Let_def g2, THEN conjunct2, THEN conjunct1,
        rule_format, of "''a''"]
    by simp
  have ty: "type (new_Diagram Polygon) \<noteq> Diagram"
    by (simp add: new_Diagram_def)
  from t3 [THEN conjunct2, THEN conjunct2, THEN conjunct2, THEN conjunct2, THEN conjunct2,
      rule_format, OF ty]
  obtain d' proto where d': "add_paths (new_Diagram Polygon) ?ps [''e'', ''e''] = Inr (d', proto)"
    and l3: "last_write_wins (paths (new_Diagram Polygon)) ?ps [''e'', ''e''] (paths d') proto"
    by blast
  have e: "map_of (paths d') ''e'' = Some (Path [V2 1 0, V2 1 1])"
    using l3 [unfolded last_write_wins_def Let_def g3, THEN conjunct1, rule_format, of 1] lg3
    by (simp add: sp)
  have f: "length (paths d') = 1"
    using l3 [unfolded last_write_wins_def Let_def g3 s3, THEN conjunct2, THEN conjunct2,
        THEN conjunct2, THEN conjunct1]
    by (simp add: new_Diagram_def)
  have g: "\<exists>e. add_paths (new_Diagram Diagram) [Path [V2 0 0, V2 1 0]] [''e''] = Inl e"
    using t4 [THEN conjunct2, THEN conjunct2, THEN conjunct2, THEN conjunct2, THEN conjunct1]
    by (simp add: new_Diagram_def)
  from a b c d ty d' e f g show ?thesis by blast
qed

text \<open>
  C10 as stated fails for the name \<open>"__proto__"\<close>: a child added to an empty group under that
  name is no entry of the group, which maps the name to nothing; the child has become the
  prototype of the dictionary.
\<close>

theorem add_childs_stores_no_entry_named_proto:
  "add_childs (new_Diagram Diagram) [new_Diagram Curve] [''__proto__''] =
     (new_Diagram Diagram, Some (new_Diagram Curve)) \<and>
   map_of (children (fst (add_childs (new_Diagram Diagram) [new_Diagram Curve] [''__proto__''])))
     ''__proto__'' = None"
  by (simp add: add_childs_def new_Diagram_def store_property_def property_name_def)

section \<open>Polygons\<close>

lemma fold_list_update_prefix:
  "m \<le> length xs \<Longrightarrow>
     fold (\<lambda>i ns. ns[i := g i]) [0..<m] xs = map (\<lambda>i. if i < m then g i else xs ! i) [0..<length xs]"
proof (induction m)
  case 0
  show ?case by (simp add: map_nth)
next
  case (Suc m)
  then show ?case
    by (auto intro!: nth_equalityI simp: nth_list_update)
qed

lemma polygon_names:
  "fold (\<lambda>i ns. ns[i := names ! i]) [0..<min n (length names)] (map (\<lambda>i. ''path'' @ toString i) [0..<n])
     = segment_names n names"
  by (simp add: fold_list_update_prefix segment_names_def)

lemma length_segment_names [simp]: "length (segment_names n names) = n"
  by (simp add: segment_names_def)

lemma length_segments [simp]: "length (segments ps) = length ps - 1"
  by (simp add: segments_def)

lemma polygon_add_paths:
  "3 \<le> length ps \<Longrightarrow>
   polygon ps names =
     add_paths (new_Diagram Polygon) (segments ps) (segment_names (length ps - 1) names)"
  unfolding polygon_def assert_def Let_def
  by (simp add: polygon_names[simplified] segments_def)

lemma polygon_Inl:
  "length ps < 3 \<Longrightarrow> polygon ps names = Inl (Error ''Polygon must have at least 3 points'')"
  by (simp add: polygon_def assert_def)

lemma names_given_all: "length ks = n \<Longrightarrow> names_given ks n = ks"
  by (auto simp: names_given_def property_name_def intro!: nth_equalityI)

lemma digit_inj: "a < 10 \<Longrightarrow> b < 10 \<Longrightarrow> digit a = digit b \<Longrightarrow> a = b"
  by (simp add: digit_def char_of_eq_iff take_bit_nat_eq_self)

lemma toString_nonempty: "toString n \<noteq> []"
  by (subst toString.simps) simp

lemma toString_inj: "toString n = toString m \<Longrightarrow> n = m"
proof (induction n arbitrary: m rule: toString.induct)
  case (1 n)
  show ?case
  proof (cases "n < 10")
    case True
    then have n: "toString n = [digit n]" by (subst toString.simps) simp
    show ?thesis
    proof (cases "m < 10")
      case True
      then have "toString m = [digit m]" by (subst toString.simps) simp
      with n "1.prems" \<open>n < 10\<close> True show ?thesis by (auto dest: digit_inj)
    next
      case False
      then have "toString m = toString (m div 10) @ [digit (m mod 10)]"
        by (subst toString.simps) simp
      with n "1.prems" show ?thesis by (simp add: toString_nonempty)
    qed
  next
    case False
    then have n: "toString n = toString (n div 10) @ [digit (n mod 10)]"
      by (subst toString.simps) simp
    show ?thesis
    proof (cases "m < 10")
      case True
      then have "toString m = [digit m]" by (subst toString.simps) simp
      with n "1.prems" show ?thesis using toString_nonempty[of "n div 10"] by auto
    next
      case m: False
      then have "toString m = toString (m div 10) @ [digit (m mod 10)]"
        by (subst toString.simps) simp
      with n "1.prems" have eq: "toString (n div 10) = toString (m div 10)"
        and dg: "digit (n mod 10) = digit (m mod 10)" by simp_all
      have "n div 10 = m div 10"
        using eq by (rule "1.IH"[OF False])
      moreover have "n mod 10 = m mod 10"
        using dg by (rule digit_inj[rotated 2]) simp_all
      ultimately show ?thesis by (metis div_mult_mod_eq)
    qed
  qed
qed

lemma distinct_default_names: "distinct (segment_names n [])"
  by (auto simp: segment_names_def distinct_map inj_on_def dest: toString_inj)

lemma default_name_plain:
  "''path'' @ toString i \<noteq> ''__proto__'' \<and> array_index (''path'' @ toString i) = None"
  by (simp add: array_index_def digit_value_def)

lemma default_names_plain:
  "\<forall>k \<in> set (segment_names n []). k \<noteq> ''__proto__'' \<and> array_index k = None"
  using default_name_plain by (auto simp: segment_names_def)

lemma sets_prototype_Nil: "sets_prototype [] k \<longleftrightarrow> k = ''__proto__''"
  by (simp add: sets_prototype_def)

lemma store_all_zip:
  assumes "distinct ks" and "length ks = n" and "length vs = n"
    and "\<forall>k \<in> set ks. k \<noteq> ''__proto__'' \<and> array_index k = None"
  shows "store_all (property_name ks) (\<lambda>i. vs ! i) n [] = (zip ks vs, None)"
proof -
  have "map (property_name ks) [0..<n] = ks"
    using names_given_all[OF assms(2)] by (simp add: names_given_def)
  with assms(1) have d: "distinct (map (property_name ks) [0..<n])" by simp
  have p: "\<forall>i<n. property_name ks i \<noteq> ''__proto__'' \<and> array_index (property_name ks i) = None"
    using assms(2,4) by (simp add: property_name_def)
  have "store_all (property_name ks) (\<lambda>i. vs ! i) n [] =
      (map (\<lambda>i. (property_name ks i, vs ! i)) [0..<n], None)"
    using d p by (rule store_all_in_order)
  also have "map (\<lambda>i. (property_name ks i, vs ! i)) [0..<n] = zip ks vs"
    using assms(2,3) by (auto intro!: nth_equalityI simp: property_name_def)
  finally show ?thesis .
qed

lemma card_without:
  "length (ks :: string list) = n \<Longrightarrow>
     card (set ks - {p}) \<le> n \<and> (card (set ks - {p}) = n \<longleftrightarrow> distinct ks \<and> p \<notin> set ks)"
proof -
  assume n: "length ks = n"
  have le: "card (set ks) \<le> n" using n card_length[of ks] by simp
  have le': "card (set ks - {p}) \<le> card (set ks)"
    by (intro card_mono) auto
  show ?thesis
  proof (cases "p \<in> set ks")
    case True
    then have "card (set ks - {p}) < card (set ks)"
      by (intro psubset_card_mono) auto
    with le True show ?thesis by simp
  next
    case False
    then have "set ks - {p} = set ks" by auto
    with le n False show ?thesis
      by (auto simp: distinct_card dest: card_distinct)
  qed
qed

text \<open>
  C7, as the code has it. \<open>polygon(points, names)\<close> fails with the validation error exactly
  when there are fewer than 3 points. Otherwise it returns a Polygon node without children.
  The \<open>len(points)-1\<close> segments between consecutive points (none from the last point back to
  the first) are stored one after the other under the names \<open>path0, path1, ...\<close>, a prefix of
  which is overridden by the supplied names. Every path of the node is one of these segments,
  the last one stored under its name; the node has one path for each of the names other than
  \<open>"__proto__"\<close>, hence at most \<open>len(points)-1\<close> paths, and exactly that many when and only
  when the names are pairwise distinct and none is \<open>"__proto__"\<close>. The segment stored last under
  \<open>"__proto__"\<close> is no path of the node but the prototype of its dictionary. When the names are
  pairwise distinct and none is \<open>"__proto__"\<close> or an array index, as the default names are, the
  paths are enumerated in the order of the segments.
\<close>

theorem polygon_segments_by_name:
  "((\<exists>e. polygon ps names = Inl e) \<longleftrightarrow> length ps < 3) \<and>
   (length ps < 3 \<longrightarrow> polygon ps names = Inl (Error ''Polygon must have at least 3 points'')) \<and>
   (3 \<le> length ps \<longrightarrow>
      (let ks = segment_names (length ps - 1) names in
       \<exists>d proto. polygon ps names = Inr (d, proto) \<and> type d = Polygon \<and> children d = [] \<and>
         distinct (map fst (paths d)) \<and>
         fst ` set (paths d) = set ks - {''__proto__''} \<and>
         length (paths d) = card (set ks - {''__proto__''}) \<and>
         length (paths d) \<le> length ps - 1 \<and>
         (length (paths d) = length ps - 1 \<longleftrightarrow> distinct ks \<and> ''__proto__'' \<notin> set ks) \<and>
         (\<forall>e \<in> set (paths d). \<exists>i. last_given ks i \<and> e = (ks ! i, Path [ps ! i, ps ! (i + 1)])) \<and>
         (\<forall>i. last_given ks i \<and> ks ! i \<noteq> ''__proto__'' \<longrightarrow>
            map_of (paths d) (ks ! i) = Some (Path [ps ! i, ps ! (i + 1)])) \<and>
         (\<forall>i. last_given ks i \<and> ks ! i = ''__proto__'' \<longrightarrow>
            proto = Some (Path [ps ! i, ps ! (i + 1)])) \<and>
         (proto = None \<longleftrightarrow> ''__proto__'' \<notin> set ks) \<and>
         (distinct ks \<and> (\<forall>k \<in> set ks. k \<noteq> ''__proto__'' \<and> array_index k = None) \<longrightarrow>
            paths d = zip ks (segments ps)))) \<and>
   distinct (segment_names (length ps - 1) []) \<and>
   (\<forall>k \<in> set (segment_names (length ps - 1) []). k \<noteq> ''__proto__'' \<and> array_index k = None)"
proof (cases "length ps < 3")
  case True
  then show ?thesis by (simp add: polygon_Inl distinct_default_names default_names_plain)
next
  case False
  then have ge: "3 \<le> length ps" by simp
  let ?n = "length ps - 1"
  let ?ks = "segment_names ?n names"
  let ?r = "store_all (property_name ?ks) (\<lambda>i. segments ps ! i) ?n []"
  let ?d = "MkDiagram Polygon [] (fst ?r) (V2 0 0) None None"
  have pol: "polygon ps names = Inr (?d, snd ?r)"
    using ge by (simp add: polygon_add_paths add_paths_Inr new_Diagram_def)
  have given: "names_given ?ks (length (segments ps)) = ?ks"
    by (simp add: names_given_all)
  have seg: "segments ps ! i = Path [ps ! i, ps ! (i + 1)]" if "i < ?n" for i
    using that by (simp add: segments_def)
  have lt: "i < ?n" if "last_given ?ks i" for i
    using that by (simp add: last_given_def)
  have "last_write_wins [] (segments ps) ?ks (fst ?r) (snd ?r)"
    using store_all_last_write_wins[of "[]" "segments ps" ?ks] by simp
  then have
    1: "\<forall>i. last_given ?ks i \<and> ?ks ! i \<noteq> ''__proto__'' \<longrightarrow> map_of (fst ?r) (?ks ! i) = Some (segments ps ! i)"
    and 3: "fst ` set (fst ?r) = {k \<in> set ?ks. k \<noteq> ''__proto__''}"
    and 4: "distinct (map fst (fst ?r)) \<and> length (fst ?r) = card {k \<in> set ?ks. k \<noteq> ''__proto__''}"
    and 5: "\<forall>i. last_given ?ks i \<and> ?ks ! i = ''__proto__'' \<longrightarrow> snd ?r = Some (segments ps ! i)"
    and 6: "snd ?r = None \<longleftrightarrow> (\<forall>k \<in> set ?ks. k \<noteq> ''__proto__'')"
    unfolding last_write_wins_def Let_def given sets_prototype_Nil by simp_all
  have set: "{k \<in> set ?ks. k \<noteq> ''__proto__''} = set ?ks - {''__proto__''}"
    by auto
  have a: "distinct (map fst (fst ?r))" using 4 by simp
  have b: "fst ` set (fst ?r) = set ?ks - {''__proto__''}" using 3 set by simp
  have c: "length (fst ?r) = card (set ?ks - {''__proto__''})" using 4 set by simp
  have d: "length (fst ?r) \<le> ?n"
    and e: "length (fst ?r) = ?n \<longleftrightarrow> distinct ?ks \<and> ''__proto__'' \<notin> set ?ks"
    using card_without[of ?ks ?n "''__proto__''"] c by simp_all
  have f: "\<exists>i. last_given ?ks i \<and> x = (?ks ! i, Path [ps ! i, ps ! (i + 1)])"
    if "x \<in> set (fst ?r)" for x
  proof -
    from that have "fst x \<in> set ?ks - {''__proto__''}" using b by (metis imageI)
    then obtain i where i: "last_given ?ks i" "?ks ! i = fst x" "?ks ! i \<noteq> ''__proto__''"
      using last_given_exists[of "fst x" ?ks] by auto
    with 1 have "map_of (fst ?r) (fst x) = Some (segments ps ! i)" by metis
    moreover have "map_of (fst ?r) (fst x) = Some (snd x)"
      using a that by (intro map_of_is_SomeI) simp_all
    ultimately have "snd x = Path [ps ! i, ps ! (i + 1)]"
      using seg[OF lt[OF i(1)]] by simp
    with i show ?thesis by (metis prod.collapse)
  qed
  have g: "\<forall>i. last_given ?ks i \<and> ?ks ! i \<noteq> ''__proto__'' \<longrightarrow>
      map_of (fst ?r) (?ks ! i) = Some (Path [ps ! i, ps ! (i + 1)])"
    using 1 seg lt by metis
  have h: "\<forall>i. last_given ?ks i \<and> ?ks ! i = ''__proto__'' \<longrightarrow>
      snd ?r = Some (Path [ps ! i, ps ! (i + 1)])"
    using 5 seg lt by metis
  have k: "snd ?r = None \<longleftrightarrow> ''__proto__'' \<notin> set ?ks"
    using 6 by auto
  have z: "fst ?r = zip ?ks (segments ps)"
    if "distinct ?ks \<and> (\<forall>k \<in> set ?ks. k \<noteq> ''__proto__'' \<and> array_index k = None)"
    using that store_all_zip[of ?ks ?n "segments ps"] by simp
  have ex: "\<exists>d proto. polygon ps names = Inr (d, proto) \<and> type d = Polygon \<and> children d = [] \<and>
         distinct (map fst (paths d)) \<and>
         fst ` set (paths d) = set ?ks - {''__proto__''} \<and>
         length (paths d) = card (set ?ks - {''__proto__''}) \<and>
         length (paths d) \<le> length ps - 1 \<and>
         (length (paths d) = length ps - 1 \<longleftrightarrow> distinct ?ks \<and> ''__proto__'' \<notin> set ?ks) \<and>
         (\<forall>e \<in> set (paths d). \<exists>i. last_given ?ks i \<and> e = (?ks ! i, Path [ps ! i, ps ! (i + 1)])) \<and>
         (\<forall>i. last_given ?ks i \<and> ?ks ! i \<noteq> ''__proto__'' \<longrightarrow>
            map_of (paths d) (?ks ! i) = Some (Path [ps ! i, ps ! (i + 1)])) \<and>
         (\<forall>i. last_given ?ks i \<and> ?ks ! i = ''__proto__'' \<longrightarrow>
            proto = Some (Path [ps ! i, ps ! (i + 1)])) \<and>
         (proto = None \<longleftrightarrow> ''__proto__'' \<notin> set ?ks) \<and>
         (distinct ?ks \<and> (\<forall>k \<in> set ?ks. k \<noteq> ''__proto__'' \<and> array_index k = None) \<longrightarrow>
            paths d = zip ?ks (segments ps))"
    apply (rule exI[of _ ?d])
    apply (rule exI[of _ "snd ?r"])
    apply (simp only: Diagram.sel)
    apply (intro conjI)
    using pol a b c d e f g h k z by blast+
  have nl: "\<not> (\<exists>e. polygon ps names = Inl e)"
    using pol by simp
  show ?thesis
    unfolding Let_def
    apply (intro conjI impI)
    using nl False apply blast
    using False apply blast
    using ex apply blast
    apply (rule distinct_default_names)
    apply (rule default_names_plain)
    done
qed

theorem polygon_segments_by_name_witness:
  "3 \<le> length [V2 0 0, V2 1 0, V2 0 1] \<and>
   segment_names 2 [''base''] = [''base'', ''path1''] \<and>
   array_index ''base'' = None \<and> array_index ''path1'' = None \<and>
   (\<exists>d proto. polygon [V2 0 0, V2 1 0, V2 0 1] [''base''] = Inr (d, proto) \<and> type d = Polygon \<and>
        paths d = [(''base'', Path [V2 0 0, V2 1 0]), (''path1'', Path [V2 1 0, V2 0 1])] \<and>
        proto = None) \<and>
   length [V2 0 0, V2 1 0] < 3 \<and>
   polygon [V2 0 0, V2 1 0] [] = Inl (Error ''Polygon must have at least 3 points'')"
proof -
  let ?P = "[V2 0 0, V2 1 0, V2 0 1]"
  have names: "segment_names 2 [''base''] = [''base'', ''path1'']"
    by (simp add: segment_names_def upt_rec toString_small)
  have names': "segment_names (Suc (Suc 0)) [''base''] = [''base'', ''path1'']"
    using names by (simp add: numeral_2_eq_2)
  have segs: "segments ?P = [Path [V2 0 0, V2 1 0], Path [V2 1 0, V2 0 1]]"
    by (simp add: segments_def upt_rec)
  have ge: "3 \<le> length ?P" by simp
  have dist: "distinct (segment_names 2 [''base''])" by (simp add: names)
  have plain: "\<forall>k \<in> set (segment_names 2 [''base'']). k \<noteq> ''__proto__'' \<and> array_index k = None"
    by (simp add: names array_index_small)
  from polygon_segments_by_name [of ?P "[''base'']", THEN conjunct2, THEN conjunct2, THEN conjunct1,
      rule_format, OF ge, unfolded Let_def]
  obtain d proto where d: "polygon ?P [''base''] = Inr (d, proto)" "type d = Polygon"
    and p: "proto = None \<longleftrightarrow> ''__proto__'' \<notin> set (segment_names (length ?P - 1) [''base''])"
    and z: "distinct (segment_names (length ?P - 1) [''base'']) \<and>
            (\<forall>k \<in> set (segment_names (length ?P - 1) [''base'']). k \<noteq> ''__proto__'' \<and> array_index k = None) \<longrightarrow>
            paths d = zip (segment_names (length ?P - 1) [''base'']) (segments ?P)"
    by blast
  have "paths d = [(''base'', Path [V2 0 0, V2 1 0]), (''path1'', Path [V2 1 0, V2 0 1])]"
    using z by (simp add: names' segs array_index_small)
  moreover have "proto = None"
    using p by (simp add: names')
  moreover have "polygon [V2 0 0, V2 1 0] [] = Inl (Error ''Polygon must have at least 3 points'')"
    using polygon_segments_by_name [of "[V2 0 0, V2 1 0]" "[]"] by simp
  ultimately show ?thesis using d names by (simp add: array_index_small)
qed

text \<open>
  C7 as stated fails when a supplied name equals a default name: of the two segments of a
  triangle given as three points, only the second is left.
\<close>

theorem polygon_collapses_equal_names:
  "polygon [V2 0 0, V2 1 0, V2 0 1] [''path1''] =
     Inr (MkDiagram Polygon [] [(''path1'', Path [V2 1 0, V2 0 1])] (V2 0 0) None None, None) \<and>
   length [(''path1'', Path [V2 1 0, V2 0 1])] \<noteq> length [V2 0 0, V2 1 0, V2 0 1] - 1"
  by (simp add: polygon_def assert_def add_paths_def new_Diagram_def property_name_def
      upt_rec toString_small store_property_def insert_property_def array_index_small)

text \<open>
  Two more polygons: a name that is an array index is enumerated before the other names, and
  the segment named \<open>"__proto__"\<close> is missing from the paths.
\<close>

lemma polygon_index_names_first:
  "polygon [V2 0 0, V2 1 0, V2 0 1] [''b'', ''0''] =
     Inr (MkDiagram Polygon []
            [(''0'', Path [V2 1 0, V2 0 1]), (''b'', Path [V2 0 0, V2 1 0])] (V2 0 0) None None, None)"
  by (simp add: polygon_def assert_def add_paths_def new_Diagram_def property_name_def
      upt_rec toString_small store_property_def insert_property_def array_index_small)

lemma polygon_proto_name:
  "polygon [V2 0 0, V2 1 0, V2 0 1] [''__proto__''] =
     Inr (MkDiagram Polygon [] [(''path1'', Path [V2 1 0, V2 0 1])] (V2 0 0) None None,
          Some (Path [V2 0 0, V2 1 0]))"
  by (simp add: polygon_def assert_def add_paths_def new_Diagram_def property_name_def
      upt_rec toString_small store_property_def insert_property_def array_index_small)

section \<open>Stores that extend or agree\<close>

lemma extends_refl [simp]: "extends s s"
  by (simp add: extends_def)

lemma extends_trans: "extends s s' \<Longrightarrow> extends s' s'' \<Longrightarrow> extends s s''"
  by (auto simp: extends_def)

lemma extends_agree: "extends s s' \<Longrightarrow> agree lo hi s s'"
  by (auto simp: extends_def agree_def)

lemma agree_trans: "agree lo hi s s' \<Longrightarrow> agree lo hi s' s'' \<Longrightarrow> agree lo hi s s''"
  by (auto simp: agree_def)

lemma agree_update: "\<not> (lo \<le> r \<and> r < hi) \<Longrightarrow> agree lo hi s (s[r := obj])"
  by (auto simp: agree_def)

lemma path_at_stable: "path_at lo hi s r p \<Longrightarrow> agree lo hi s s' \<Longrightarrow> path_at lo hi s' r p"
  by (auto simp: path_at_def agree_def)

lemma path_at_widen: "path_at lo hi s r p \<Longrightarrow> lo' \<le> lo \<Longrightarrow> hi \<le> hi' \<Longrightarrow> path_at lo' hi' s r p"
  by (auto simp: path_at_def)

lemma node_stable:
  "node lo hi s r d \<Longrightarrow> agree lo hi s s' \<Longrightarrow> r < length s' \<Longrightarrow> s' ! r = s ! r \<Longrightarrow> node lo hi s' r d"
proof (induction d arbitrary: r)
  case (MkDiagram ty ch pa og cs cf)
  from MkDiagram.prems(1) obtain rch rpa where
    cell: "s ! r = DiagramObject ty rch rpa og cs cf" and
    dist: "distinct (map fst rch)" "distinct (map fst rpa)" and
    kids: "list_all2 (\<lambda>a c. fst a = fst c \<and> lo \<le> snd a \<and> snd a < hi \<and> node lo hi s (snd a) (snd c)) rch ch" and
    pths: "list_all2 (\<lambda>a p. fst a = fst p \<and> path_at lo hi s (snd a) (snd p)) rpa pa"
    by (auto split: object.splits)
  have kids': "list_all2 (\<lambda>a c. fst a = fst c \<and> lo \<le> snd a \<and> snd a < hi \<and> node lo hi s' (snd a) (snd c)) rch ch"
  proof (rule list.rel_mono_strong[OF kids], intro conjI)
    fix a c
    assume c: "c \<in> set ch"
      and ac: "fst a = fst c \<and> lo \<le> snd a \<and> snd a < hi \<and> node lo hi s (snd a) (snd c)"
    then show "fst a = fst c" "lo \<le> snd a" "snd a < hi" by simp_all
    from ac have n: "node lo hi s (snd a) (snd c)" by simp
    then have "snd a < length s" by (cases "snd c") simp
    with ac MkDiagram.prems(2) have "snd a < length s'" "s' ! snd a = s ! snd a"
      by (auto simp: agree_def)
    with n c show "node lo hi s' (snd a) (snd c)"
      using MkDiagram.IH[of c "snd c" "snd a"] MkDiagram.prems(2)
      by (cases c) (auto simp: snds.simps)
  qed
  have pths': "list_all2 (\<lambda>a p. fst a = fst p \<and> path_at lo hi s' (snd a) (snd p)) rpa pa"
    by (rule list.rel_mono_strong[OF pths]) (auto intro: path_at_stable MkDiagram.prems(2))
  from cell dist kids' pths' MkDiagram.prems(3,4) show ?case by simp
qed

lemma node_widen:
  "node lo hi s r d \<Longrightarrow> lo' \<le> lo \<Longrightarrow> hi \<le> hi' \<Longrightarrow> node lo' hi' s r d"
proof (induction d arbitrary: r)
  case (MkDiagram ty ch pa og cs cf)
  from MkDiagram.prems(1) obtain rch rpa where
    cell: "r < length s" "s ! r = DiagramObject ty rch rpa og cs cf" and
    dist: "distinct (map fst rch)" "distinct (map fst rpa)" and
    kids: "list_all2 (\<lambda>a c. fst a = fst c \<and> lo \<le> snd a \<and> snd a < hi \<and> node lo hi s (snd a) (snd c)) rch ch" and
    pths: "list_all2 (\<lambda>a p. fst a = fst p \<and> path_at lo hi s (snd a) (snd p)) rpa pa"
    by (auto split: object.splits)
  have kids': "list_all2 (\<lambda>a c. fst a = fst c \<and> lo' \<le> snd a \<and> snd a < hi' \<and> node lo' hi' s (snd a) (snd c)) rch ch"
  proof (rule list.rel_mono_strong[OF kids], intro conjI)
    fix a c
    assume c: "c \<in> set ch"
      and ac: "fst a = fst c \<and> lo \<le> snd a \<and> snd a < hi \<and> node lo hi s (snd a) (snd c)"
    with MkDiagram.prems(2,3) show "fst a = fst c" "lo' \<le> snd a" "snd a < hi'" by simp_all
    from ac c show "node lo' hi' s (snd a) (snd c)"
      using MkDiagram.IH[of c "snd c" "snd a"] MkDiagram.prems(2,3)
      by (cases c) (auto simp: snds.simps)
  qed
  have pths': "list_all2 (\<lambda>a p. fst a = fst p \<and> path_at lo' hi' s (snd a) (snd p)) rpa pa"
    by (rule list.rel_mono_strong[OF pths]) (auto intro: path_at_widen MkDiagram.prems(2,3))
  from cell dist kids' pths' show ?case by simp
qed

lemma tree_at_stable: "tree_at lo hi s r d \<Longrightarrow> agree lo hi s s' \<Longrightarrow> tree_at lo hi s' r d"
proof -
  assume t: "tree_at lo hi s r d" and a: "agree lo hi s s'"
  then have "r < length s" by (cases d) (simp add: tree_at_def)
  with t a have "r < length s'" "s' ! r = s ! r" by (auto simp: tree_at_def agree_def)
  with t a show ?thesis by (auto simp: tree_at_def intro: node_stable)
qed

lemma tree_at_widen: "tree_at lo hi s r d \<Longrightarrow> lo' \<le> lo \<Longrightarrow> hi \<le> hi' \<Longrightarrow> tree_at lo' hi' s r d"
  by (auto simp: tree_at_def intro: node_widen)

section \<open>The loops over a dictionary\<close>

lemma with_entries_same: "entries_of f obj = Some al \<Longrightarrow> with_entries f al obj = obj"
  by (cases obj; cases f) (auto simp: entries_of_def with_entries_def)

lemma with_entries_twice: "with_entries f al (with_entries f al' obj) = with_entries f al obj"
  by (cases obj; cases f) (auto simp: with_entries_def)

lemma entries_of_with_entries:
  "entries_of f obj = Some al' \<Longrightarrow> entries_of f (with_entries f al obj) = Some al"
  by (cases obj; cases f) (auto simp: entries_of_def with_entries_def)

lemma update_middle:
  "k \<notin> fst ` set xs \<Longrightarrow> AList.update k v (xs @ (k, a) # ys) = xs @ (k, v) # ys"
  by (induction xs) auto

lemma map_of_middle:
  "k \<notin> fst ` set xs \<Longrightarrow> map_of (xs @ (k, a) # ys) k = Some a"
  by (induction xs) auto

lemma replace_each_spec:
  fixes R :: "nat \<Rightarrow> nat \<Rightarrow> store \<Rightarrow> ref \<Rightarrow> 'c \<Rightarrow> bool" and g :: "'c \<Rightarrow> 'c"
  assumes stable: "\<And>lo hi s s' a c. R lo hi s a c \<Longrightarrow> agree lo hi s s' \<Longrightarrow> R lo hi s' a c"
    and widen: "\<And>lo hi lo' hi' s a c. R lo hi s a c \<Longrightarrow> lo' \<le> lo \<Longrightarrow> hi \<le> hi' \<Longrightarrow> R lo' hi' s a c"
    and meth: "\<And>s a c. c \<in> set pool \<Longrightarrow> R lo hi s a (snd c) \<Longrightarrow> hi \<le> length s \<Longrightarrow>
        \<exists>a' s'. method s a = Some (a', s') \<and> extends s s' \<and> R (length s) (length s') s' a' (g (snd c))"
    and newd: "newd < base" "\<not> (lo \<le> newd \<and> newd < hi)" "hi \<le> base"
  shows "base \<le> length s \<Longrightarrow> entries f s newd = Some (done @ todo) \<Longrightarrow>
     distinct (map fst (done @ todo)) \<Longrightarrow> set todo_abs \<subseteq> set pool \<Longrightarrow>
     list_all2 (\<lambda>a c. fst a = fst c \<and> R lo hi s (snd a) (snd c)) todo todo_abs \<Longrightarrow>
     list_all2 (\<lambda>a c. fst a = fst c \<and> R base (length s) s (snd a) (snd c)) done done_abs \<Longrightarrow>
     \<exists>s' al. replace_each f method newd (map fst todo) s = Some s' \<and> length s \<le> length s' \<and>
        (\<forall>i<length s. i \<noteq> newd \<longrightarrow> s' ! i = s ! i) \<and>
        s' ! newd = with_entries f al (s ! newd) \<and>
        list_all2 (\<lambda>a c. fst a = fst c \<and> R base (length s') s' (snd a) (snd c)) al
          (done_abs @ map (\<lambda>c. (fst c, g (snd c))) todo_abs)"
proof (induction todo arbitrary: s "done" done_abs todo_abs)
  case Nil
  then have "todo_abs = []" by simp
  moreover from Nil.prems(2) newd(1) Nil.prems(1) have "with_entries f done (s ! newd) = s ! newd"
    by (auto simp: entries_def intro: with_entries_same split: if_splits)
  ultimately show ?case using Nil.prems(6)
    by (intro exI[of _ s] exI[of _ "done"]) simp
next
  case (Cons e todo)
  from Cons.prems(5) obtain c rest_abs where
    abs: "todo_abs = c # rest_abs" and kc: "fst e = fst c" and Rc: "R lo hi s (snd e) (snd c)"
    and rest: "list_all2 (\<lambda>a c. fst a = fst c \<and> R lo hi s (snd a) (snd c)) todo rest_abs"
    by (auto simp: list_all2_Cons1)
  obtain k a where e: "e = (k, a)" by (cases e)
  from Cons.prems(3) e have knd: "k \<notin> fst ` set done" by auto
  have nl: "newd < length s" using newd(1) Cons.prems(1) by simp
  from Cons.prems(2) nl have eo: "entries_of f (s ! newd) = Some (done @ (k, a) # todo)"
    by (simp add: entries_def e)
  have "map_of (done @ (k, a) # todo) k = Some a"
    using knd by (rule map_of_middle)
  with Cons.prems(2) have get: "get_entry f s newd k = Some a"
    by (simp only: get_entry_def e option.simps)
  from abs Cons.prems(4) have cin: "c \<in> set pool" by simp
  from newd(3) Cons.prems(1) have hs: "hi \<le> length s" by simp
  from meth[OF cin _ hs, of a] Rc e obtain a' s1 where
    m: "method s a = Some (a', s1)" and ext: "extends s s1"
    and Ra: "R (length s) (length s1) s1 a' (g (snd c))"
    by auto
  from ext nl have n1: "newd < length s1" "s1 ! newd = s ! newd"
    by (auto simp: extends_def)
  let ?s2 = "s1[newd := with_entries f (done @ (k, a') # todo) (s ! newd)]"
  have set: "set_entry f s1 newd k a' = Some ?s2"
    using n1 eo knd by (simp add: set_entry_def entries_def update_middle)
  have len: "length s \<le> length s1" using ext by (simp add: extends_def)
  have ag_lo: "agree lo hi s ?s2"
    by (rule agree_trans[OF extends_agree[OF ext]]) (rule agree_update[OF newd(2)])
  have ag_base: "agree base (length s) s ?s2"
    by (rule agree_trans[OF extends_agree[OF ext]]) (rule agree_update, use newd(1) in simp)
  have ag_new: "agree (length s) (length s1) s1 ?s2"
    by (rule agree_update) (use nl in simp)
  have p1: "base \<le> length ?s2" using Cons.prems(1) len by simp
  have p2: "entries f ?s2 newd = Some ((done @ [(k, a')]) @ todo)"
    using n1 eo by (simp add: entries_def entries_of_with_entries)
  have p3: "distinct (map fst ((done @ [(k, a')]) @ todo))"
    using Cons.prems(3) by (simp add: e)
  have p4: "set rest_abs \<subseteq> set pool" using Cons.prems(4) abs by simp
  have p5: "list_all2 (\<lambda>a c. fst a = fst c \<and> R lo hi ?s2 (snd a) (snd c)) todo rest_abs"
    by (rule list_all2_mono[OF rest]) (auto intro: stable ag_lo)
  have old: "list_all2 (\<lambda>a c. fst a = fst c \<and> R base (length ?s2) ?s2 (snd a) (snd c)) done done_abs"
  proof (rule list_all2_mono[OF Cons.prems(6)], intro conjI)
    fix x y assume xy: "fst x = fst y \<and> R base (length s) s (snd x) (snd y)"
    then show "fst x = fst y" by simp
    from xy have "R base (length s) ?s2 (snd x) (snd y)" by (auto intro: stable ag_base)
    then show "R base (length ?s2) ?s2 (snd x) (snd y)"
      by (rule widen) (use len in simp_all)
  qed
  have "R (length s) (length s1) ?s2 a' (g (snd c))"
    using Ra ag_new by (rule stable)
  then have new: "R base (length ?s2) ?s2 a' (g (snd c))"
    by (rule widen) (use Cons.prems(1) in simp_all)
  have p6: "list_all2 (\<lambda>a c. fst a = fst c \<and> R base (length ?s2) ?s2 (snd a) (snd c))
     (done @ [(k, a')]) (done_abs @ [(fst c, g (snd c))])"
    using old new kc e by (simp add: list_all2_appendI)
  from Cons.IH[OF p1 p2 p3 p4 p5 p6] obtain s' al where
    r: "replace_each f method newd (map fst todo) ?s2 = Some s'" and l: "length ?s2 \<le> length s'"
    and same: "\<forall>i<length ?s2. i \<noteq> newd \<longrightarrow> s' ! i = ?s2 ! i"
    and root: "s' ! newd = with_entries f al (?s2 ! newd)"
    and all: "list_all2 (\<lambda>a c. fst a = fst c \<and> R base (length s') s' (snd a) (snd c)) al
          ((done_abs @ [(fst c, g (snd c))]) @ map (\<lambda>c. (fst c, g (snd c))) rest_abs)"
    by blast
  have "replace_each f method newd (map fst (e # todo)) s = Some s'"
    using get m set r by (simp add: e)
  moreover have "length s \<le> length s'" using l len by simp
  moreover have "\<forall>i<length s. i \<noteq> newd \<longrightarrow> s' ! i = s ! i"
    using same ext len by (auto simp: extends_def)
  moreover have "s' ! newd = with_entries f al (s ! newd)"
    using root n1 by (simp add: with_entries_twice)
  moreover have "list_all2 (\<lambda>a c. fst a = fst c \<and> R base (length s') s' (snd a) (snd c)) al
          (done_abs @ map (\<lambda>c. (fst c, g (snd c))) todo_abs)"
    using all abs by simp
  ultimately show ?case by blast
qed

lemma for_in_replace_spec:
  fixes R :: "nat \<Rightarrow> nat \<Rightarrow> store \<Rightarrow> ref \<Rightarrow> 'c \<Rightarrow> bool" and g :: "'c \<Rightarrow> 'c"
  assumes stable: "\<And>lo hi s s' a c. R lo hi s a c \<Longrightarrow> agree lo hi s s' \<Longrightarrow> R lo hi s' a c"
    and widen: "\<And>lo hi lo' hi' s a c. R lo hi s a c \<Longrightarrow> lo' \<le> lo \<Longrightarrow> hi \<le> hi' \<Longrightarrow> R lo' hi' s a c"
    and meth: "\<And>s a c. c \<in> set cs \<Longrightarrow> R lo hi s a (snd c) \<Longrightarrow> hi \<le> length s \<Longrightarrow>
        \<exists>a' s'. method s a = Some (a', s') \<and> extends s s' \<and> R (length s) (length s') s' a' (g (snd c))"
    and newd: "newd < length s" "\<not> (lo \<le> newd \<and> newd < hi)" "hi \<le> length s"
    and ent: "entries f s newd = Some al" "distinct (map fst al)"
    and rel: "list_all2 (\<lambda>a c. fst a = fst c \<and> R lo hi s (snd a) (snd c)) al cs"
  shows "\<exists>s' al'. for_in_replace f method newd s = Some s' \<and> length s \<le> length s' \<and>
        (\<forall>i<length s. i \<noteq> newd \<longrightarrow> s' ! i = s ! i) \<and>
        s' ! newd = with_entries f al' (s ! newd) \<and> map fst al' = map fst al \<and>
        list_all2 (\<lambda>a c. fst a = fst c \<and> R (length s) (length s') s' (snd a) (snd c)) al'
          (map (\<lambda>c. (fst c, g (snd c))) cs)"
proof -
  have "\<exists>s' al'. replace_each f method newd (map fst al) s = Some s' \<and> length s \<le> length s' \<and>
        (\<forall>i<length s. i \<noteq> newd \<longrightarrow> s' ! i = s ! i) \<and>
        s' ! newd = with_entries f al' (s ! newd) \<and>
        list_all2 (\<lambda>a c. fst a = fst c \<and> R (length s) (length s') s' (snd a) (snd c)) al'
          ([] @ map (\<lambda>c. (fst c, g (snd c))) cs)"
  proof (rule replace_each_spec[where R = R and lo = lo and hi = hi and pool = cs
        and base = "length s" and ?done = "[]" and done_abs = "[]" and todo = al])
    show "R lo hi s' a c" if "R lo hi s a c" "agree lo hi s s'" for lo hi s s' a c
      using that by (rule stable)
    show "R lo' hi' s a c" if "R lo hi s a c" "lo' \<le> lo" "hi \<le> hi'" for lo hi lo' hi' s a c
      using that by (rule widen)
    show "\<exists>a' s'. method s a = Some (a', s') \<and> extends s s' \<and> R (length s) (length s') s' a' (g (snd c))"
      if "c \<in> set cs" "R lo hi s a (snd c)" "hi \<le> length s" for s a c
      using that by (rule meth)
  qed (use newd ent rel in simp_all)
  then obtain s' al' where
    r: "replace_each f method newd (map fst al) s = Some s'" "length s \<le> length s'"
      "\<forall>i<length s. i \<noteq> newd \<longrightarrow> s' ! i = s ! i" "s' ! newd = with_entries f al' (s ! newd)"
      and all: "list_all2 (\<lambda>a c. fst a = fst c \<and> R (length s) (length s') s' (snd a) (snd c)) al'
          (map (\<lambda>c. (fst c, g (snd c))) cs)"
    by auto
  have "map fst al' = map fst (map (\<lambda>c. (fst c, g (snd c))) cs)"
    using all by (induction rule: list_all2_induct) auto
  also have "\<dots> = map fst al"
    using rel by (induction rule: list_all2_induct) auto
  finally have "map fst al' = map fst al" .
  with r all ent show ?thesis by (auto simp: for_in_replace_def)
qed

section \<open>Cloning and copying\<close>

lemma fold_max_ge:
  "a \<le> fold (\<lambda>c. max (f c)) xs a \<and> (\<forall>x\<in>set xs. f x \<le> fold (\<lambda>c. max (f c)) xs a)"
  for f :: "'a \<Rightarrow> nat"
proof (induction xs arbitrary: a)
  case Nil
  show ?case by simp
next
  case (Cons x xs)
  from Cons[of "max (f x) a"] show ?case by auto
qed

lemma height_child: "c \<in> set ch \<Longrightarrow> height (snd c) < height (MkDiagram ty ch pa og cs cf)"
  using fold_max_ge[of 0 "\<lambda>c. height (snd c)" ch] by (auto simp: less_Suc_eq_le)

lemma node_iff:
  "node lo hi s r (MkDiagram ty ch pa og cs cf) \<longleftrightarrow>
     r < length s \<and>
     (\<exists>rch rpa. s ! r = DiagramObject ty rch rpa og cs cf \<and>
        distinct (map fst rch) \<and> distinct (map fst rpa) \<and>
        list_all2 (\<lambda>a c. fst a = fst c \<and> tree_at lo hi s (snd a) (snd c)) rch ch \<and>
        list_all2 (\<lambda>a p. fst a = fst p \<and> path_at lo hi s (snd a) (snd p)) rpa pa)"
  by (auto simp: tree_at_def split: object.splits)

declare node.simps [simp del]

lemma same_keys:
  "list_all2 (\<lambda>a c. fst a = fst c \<and> P a c) xs ys \<Longrightarrow> map fst xs = map fst ys"
  by (induction rule: list_all2_induct) auto

lemma parse_entries_spec:
  fixes R :: "nat \<Rightarrow> nat \<Rightarrow> store \<Rightarrow> ref \<Rightarrow> 'c \<Rightarrow> bool" and g :: "'c \<Rightarrow> 'c"
  assumes stable: "\<And>lo hi s s' a c. R lo hi s a c \<Longrightarrow> agree lo hi s s' \<Longrightarrow> R lo hi s' a c"
    and widen: "\<And>lo hi lo' hi' s a c. R lo hi s a c \<Longrightarrow> lo' \<le> lo \<Longrightarrow> hi \<le> hi' \<Longrightarrow> R lo' hi' s a c"
    and clone: "\<And>s a c. c \<in> set pool \<Longrightarrow> R lo hi s a (snd c) \<Longrightarrow> hi \<le> length s \<Longrightarrow>
        \<exists>a' s'. clone s a = Some (a', s') \<and> extends s s' \<and> R (length s) (length s') s' a' (g (snd c))"
    and hi: "hi \<le> base"
  shows "base \<le> length s \<Longrightarrow> set cs \<subseteq> set pool \<Longrightarrow>
     list_all2 (\<lambda>a c. fst a = fst c \<and> R lo hi s (snd a) (snd c)) al cs \<Longrightarrow>
     \<exists>al' s'. parse_entries clone al s = Some (al', s') \<and> extends s s' \<and>
        list_all2 (\<lambda>a c. fst a = fst c \<and> R base (length s') s' (snd a) (snd c)) al'
          (map (\<lambda>c. (fst c, g (snd c))) cs)"
proof (induction al arbitrary: s cs)
  case Nil
  then show ?case by simp
next
  case (Cons e al)
  from Cons.prems(3) obtain c rest where
    cs: "cs = c # rest" and kc: "fst e = fst c" and Rc: "R lo hi s (snd e) (snd c)"
    and rest: "list_all2 (\<lambda>a c. fst a = fst c \<and> R lo hi s (snd a) (snd c)) al rest"
    by (auto simp: list_all2_Cons1)
  from cs Cons.prems(2) have cin: "c \<in> set pool" by simp
  from hi Cons.prems(1) have hs: "hi \<le> length s" by simp
  from clone[OF cin Rc hs] obtain a' s1 where
    m: "clone s (snd e) = Some (a', s1)" and ext: "extends s s1"
    and Ra: "R (length s) (length s1) s1 a' (g (snd c))"
    by auto
  have len: "length s \<le> length s1" using ext by (simp add: extends_def)
  have p1: "base \<le> length s1" using Cons.prems(1) len by simp
  have p2: "set rest \<subseteq> set pool" using Cons.prems(2) cs by simp
  have p3: "list_all2 (\<lambda>a c. fst a = fst c \<and> R lo hi s1 (snd a) (snd c)) al rest"
    by (rule list_all2_mono[OF rest]) (auto intro: stable extends_agree[OF ext])
  from Cons.IH[OF p1 p2 p3] obtain al' s2 where
    r: "parse_entries clone al s1 = Some (al', s2)" and ext2: "extends s1 s2"
    and all: "list_all2 (\<lambda>a c. fst a = fst c \<and> R base (length s2) s2 (snd a) (snd c)) al'
          (map (\<lambda>c. (fst c, g (snd c))) rest)"
    by blast
  have len2: "length s1 \<le> length s2" using ext2 by (simp add: extends_def)
  have "R (length s) (length s1) s2 a' (g (snd c))"
    using Ra extends_agree[OF ext2] by (rule stable)
  then have "R base (length s2) s2 a' (g (snd c))"
    by (rule widen) (use Cons.prems(1) len2 in simp_all)
  with all kc have "list_all2 (\<lambda>a c. fst a = fst c \<and> R base (length s2) s2 (snd a) (snd c))
      ((fst e, a') # al') (map (\<lambda>c. (fst c, g (snd c))) cs)"
    by (simp add: cs)
  moreover have "parse_entries clone (e # al) s = Some ((fst e, a') # al', s2)"
    using m r by simp
  moreover have "extends s s2" using ext ext2 by (rule extends_trans)
  ultimately show ?case by blast
qed

lemma JSON_roundtrip_MkDiagram:
  "JSON_roundtrip (MkDiagram ty ch pa og cs cf) =
     MkDiagram ty (map (\<lambda>c. (fst c, JSON_roundtrip (snd c))) ch)
       (map (\<lambda>p. (fst p, JSON_Path (snd p))) pa) (JSON_Vector2 og) cs cf"
  by (simp add: map_prod_def case_prod_beta)

lemma fold_max_map:
  "(\<And>x. x \<in> set xs \<Longrightarrow> f (g x) = f x) \<Longrightarrow>
     fold (\<lambda>c. max (f c)) (map g xs) a = fold (\<lambda>c. max (f c)) xs (a :: nat)"
  by (induction xs arbitrary: a) simp_all

lemma height_JSON_roundtrip [simp]: "height (JSON_roundtrip d) = height d"
proof (induction d)
  case (MkDiagram ty ch pa og cs cf)
  have "fold (\<lambda>c. max (height (snd c))) (map (map_prod id JSON_roundtrip) ch) 0
      = fold (\<lambda>c. max (height (snd c))) ch 0"
  proof (rule fold_max_map)
    fix c assume "c \<in> set ch"
    with MkDiagram show "height (snd (map_prod id JSON_roundtrip c)) = height (snd c)"
      by (cases c) (auto simp: snds.simps)
  qed
  then show ?case by simp
qed

lemma height_copy [simp]: "height (copy d) = height d"
  by (simp add: copy_JSON_roundtrip)

lemma JSON_clone_path:
  "path_at lo hi s r p \<Longrightarrow>
     \<exists>r' s'. JSON_clone (Suc n) s r = Some (r', s') \<and> extends s s' \<and>
       path_at (length s) (length s') s' r' (JSON_Path p)"
  by (auto simp: path_at_def JSON_Path_def new_def extends_def nth_append)

lemma JSON_clone_spec:
  "tree_at lo hi s r d \<Longrightarrow> hi \<le> length s \<Longrightarrow> height d < n \<Longrightarrow>
     \<exists>r' s'. JSON_clone n s r = Some (r', s') \<and> extends s s' \<and> length s \<le> r' \<and>
       Suc r' = length s' \<and> node (length s) r' s' r' (JSON_roundtrip d)"
proof (induction n arbitrary: s r d lo hi)
  case 0
  then show ?case by simp
next
  case (Suc n)
  obtain ty ch pa og cs cf where d: "d = MkDiagram ty ch pa og cs cf" by (cases d)
  from Suc.prems(1) obtain rch rpa where
    r: "r < length s" and cell: "s ! r = DiagramObject ty rch rpa og cs cf" and
    dist: "distinct (map fst rch)" "distinct (map fst rpa)" and
    kids: "list_all2 (\<lambda>a c. fst a = fst c \<and> tree_at lo hi s (snd a) (snd c)) rch ch" and
    pths: "list_all2 (\<lambda>a p. fst a = fst p \<and> path_at lo hi s (snd a) (snd p)) rpa pa"
    unfolding d tree_at_def[of lo hi s r] node_iff by blast
  have "\<exists>al' s'. parse_entries (JSON_clone n) rch s = Some (al', s') \<and> extends s s' \<and>
        list_all2 (\<lambda>a c. fst a = fst c \<and> tree_at (length s) (length s') s' (snd a) (snd c)) al'
          (map (\<lambda>c. (fst c, JSON_roundtrip (snd c))) ch)"
  proof (rule parse_entries_spec[where R = tree_at and lo = lo and hi = hi and pool = ch])
    show "\<exists>a' s'. JSON_clone n s a = Some (a', s') \<and> extends s s' \<and>
            tree_at (length s) (length s') s' a' (JSON_roundtrip (snd c))"
      if "c \<in> set ch" "tree_at lo hi s a (snd c)" "hi \<le> length s" for s a c
    proof -
      from that(1) Suc.prems(3) have "height (snd c) < n"
        using height_child[of c ch ty pa og cs cf] by (simp add: d)
      from Suc.IH[OF that(2,3) this] obtain a' s' where
        "JSON_clone n s a = Some (a', s')" "extends s s'" "length s \<le> a'" "Suc a' = length s'"
        "node (length s) a' s' a' (JSON_roundtrip (snd c))"
        by blast
      moreover from this have "tree_at (length s) (length s') s' a' (JSON_roundtrip (snd c))"
        by (auto simp: tree_at_def intro: node_widen)
      ultimately show ?thesis by blast
    qed
  qed (use Suc.prems(2) kids in \<open>auto intro: tree_at_stable tree_at_widen\<close>)
  then obtain al s1 where
    pc: "parse_entries (JSON_clone n) rch s = Some (al, s1)" and e1: "extends s s1" and
    kids1: "list_all2 (\<lambda>a c. fst a = fst c \<and> tree_at (length s) (length s1) s1 (snd a) (snd c)) al
          (map (\<lambda>c. (fst c, JSON_roundtrip (snd c))) ch)"
    by blast
  have l1: "length s \<le> length s1" using e1 by (simp add: extends_def)
  obtain m where n: "n = Suc m" using Suc.prems(3) by (cases n) (simp_all add: d)
  have "\<exists>pl' s'. parse_entries (JSON_clone n) rpa s1 = Some (pl', s') \<and> extends s1 s' \<and>
        list_all2 (\<lambda>a p. fst a = fst p \<and> path_at (length s) (length s') s' (snd a) (snd p)) pl'
          (map (\<lambda>p. (fst p, JSON_Path (snd p))) pa)"
  proof (rule parse_entries_spec[where R = path_at and lo = lo and hi = hi and pool = pa])
    show "\<exists>a' s'. JSON_clone n s a = Some (a', s') \<and> extends s s' \<and>
            path_at (length s) (length s') s' a' (JSON_Path (snd c))"
      if "path_at lo hi s a (snd c)" for s a c
      unfolding n using that by (rule JSON_clone_path)
    show "list_all2 (\<lambda>a c. fst a = fst c \<and> path_at lo hi s1 (snd a) (snd c)) rpa pa"
      by (rule list_all2_mono[OF pths]) (auto intro: path_at_stable extends_agree[OF e1])
  qed (use Suc.prems(2) l1 in \<open>auto intro: path_at_stable path_at_widen\<close>)
  then obtain pl s2 where
    pp: "parse_entries (JSON_clone n) rpa s1 = Some (pl, s2)" and e2: "extends s1 s2" and
    pths2: "list_all2 (\<lambda>a p. fst a = fst p \<and> path_at (length s) (length s2) s2 (snd a) (snd p)) pl
          (map (\<lambda>p. (fst p, JSON_Path (snd p))) pa)"
    by blast
  have l2: "length s1 \<le> length s2" using e2 by (simp add: extends_def)
  let ?obj = "DiagramObject ty al pl (JSON_Vector2 og) cs cf"
  let ?s' = "s2 @ [?obj]"
  have e3: "extends s2 ?s'" by (simp add: extends_def nth_append)
  have res: "JSON_clone (Suc n) s r = Some (length s2, ?s')"
    using r cell pc pp by (simp add: new_def)
  have ext: "extends s ?s'"
    using e1 e2 e3 by (blast intro: extends_trans)
  have kids': "list_all2 (\<lambda>a c. fst a = fst c \<and> tree_at (length s) (length s2) ?s' (snd a) (snd c)) al
      (map (\<lambda>c. (fst c, JSON_roundtrip (snd c))) ch)"
  proof (rule list_all2_mono[OF kids1], intro conjI)
    fix a c assume ac: "fst a = fst c \<and> tree_at (length s) (length s1) s1 (snd a) (snd c)"
    then show "fst a = fst c" by simp
    from ac have "tree_at (length s) (length s1) ?s' (snd a) (snd c)"
      by (auto intro: tree_at_stable extends_agree extends_trans[OF e2 e3])
    then show "tree_at (length s) (length s2) ?s' (snd a) (snd c)"
      by (rule tree_at_widen) (use l2 in simp_all)
  qed
  have pths': "list_all2 (\<lambda>a p. fst a = fst p \<and> path_at (length s) (length s2) ?s' (snd a) (snd p)) pl
      (map (\<lambda>p. (fst p, JSON_Path (snd p))) pa)"
    by (rule list_all2_mono[OF pths2]) (auto intro: path_at_stable extends_agree[OF e3])
  have keys: "map fst al = map fst rch" "map fst pl = map fst rpa"
    using same_keys[OF kids1] same_keys[OF kids] same_keys[OF pths2] same_keys[OF pths]
    by (simp_all add: comp_def)
  have "node (length s) (length s2) ?s' (length s2) (JSON_roundtrip d)"
    unfolding d JSON_roundtrip_MkDiagram node_iff using kids' pths' keys dist by simp
  with res ext l1 l2 show ?case by simp
qed

lemma Path_copy_in_spec:
  "path_at lo hi s r p \<Longrightarrow>
     \<exists>r' s'. Path_copy_in s r = Some (r', s') \<and> extends s s' \<and>
       path_at (length s) (length s') s' r' (Path_copy p)"
  by (auto simp: path_at_def Path_copy_in_def Path_copy_def new_def extends_def nth_append)

lemma Path_translate_in_spec:
  "path_at lo hi s r p \<Longrightarrow>
     \<exists>r' s'. Path_translate_in v s r = Some (r', s') \<and> extends s s' \<and>
       path_at (length s) (length s') s' r' (Path_translate p v)"
  by (auto simp: path_at_def Path_translate_in_def Path_copy_in_def Path_translate_def
        Path_copy_def set_points_def new_def extends_def nth_append)

lemma Path_rotate_in_spec:
  "path_at lo hi s r p \<Longrightarrow>
     \<exists>r' s'. Path_rotate_in angle pivot s r = Some (r', s') \<and> extends s s' \<and>
       path_at (length s) (length s') s' r' (Path_rotate p angle pivot)"
  by (auto simp: path_at_def Path_rotate_in_def Path_copy_in_def Path_rotate_def
        Path_copy_def set_points_def new_def extends_def nth_append)

lemma replace_children_and_paths:
  assumes nd: "node lo hi s newd (MkDiagram ty ch pa og cs cf)"
    and out: "\<not> (lo \<le> newd \<and> newd < hi)" and hi: "hi \<le> length s"
    and cm: "\<And>s a c. c \<in> set ch \<Longrightarrow> tree_at lo hi s a (snd c) \<Longrightarrow> hi \<le> length s \<Longrightarrow>
        \<exists>a' s'. cm s a = Some (a', s') \<and> extends s s' \<and> tree_at (length s) (length s') s' a' (gc (snd c))"
    and pm: "\<And>s a p. path_at lo hi s a p \<Longrightarrow>
        \<exists>a' s'. pm s a = Some (a', s') \<and> extends s s' \<and> path_at (length s) (length s') s' a' (gp p)"
  shows "\<exists>s2 s3. for_in_replace Children cm newd s = Some s2 \<and>
      for_in_replace Paths pm newd s2 = Some s3 \<and> length s \<le> length s3 \<and>
      (\<forall>i<length s. i \<noteq> newd \<longrightarrow> s3 ! i = s ! i) \<and>
      node (length s) (length s3) s3 newd
        (MkDiagram ty (map (\<lambda>c. (fst c, gc (snd c))) ch) (map (\<lambda>p. (fst p, gp (snd p))) pa) og cs cf)"
proof -
  from nd obtain rch rpa where
    r: "newd < length s" and cell: "s ! newd = DiagramObject ty rch rpa og cs cf" and
    dist: "distinct (map fst rch)" "distinct (map fst rpa)" and
    kids: "list_all2 (\<lambda>a c. fst a = fst c \<and> tree_at lo hi s (snd a) (snd c)) rch ch" and
    pths: "list_all2 (\<lambda>a p. fst a = fst p \<and> path_at lo hi s (snd a) (snd p)) rpa pa"
    unfolding node_iff by blast
  have "\<exists>s' al'. for_in_replace Children cm newd s = Some s' \<and> length s \<le> length s' \<and>
        (\<forall>i<length s. i \<noteq> newd \<longrightarrow> s' ! i = s ! i) \<and>
        s' ! newd = with_entries Children al' (s ! newd) \<and> map fst al' = map fst rch \<and>
        list_all2 (\<lambda>a c. fst a = fst c \<and> tree_at (length s) (length s') s' (snd a) (snd c)) al'
          (map (\<lambda>c. (fst c, gc (snd c))) ch)"
  proof (rule for_in_replace_spec[where R = tree_at and lo = lo and hi = hi])
    show "\<exists>a' s'. cm s a = Some (a', s') \<and> extends s s' \<and> tree_at (length s) (length s') s' a' (gc (snd c))"
      if "c \<in> set ch" "tree_at lo hi s a (snd c)" "hi \<le> length s" for s a c
      using that by (rule cm)
    show "entries Children s newd = Some rch"
      using r cell by (simp add: entries_def entries_of_def)
  qed (use r out hi dist kids in \<open>auto intro: tree_at_stable tree_at_widen\<close>)
  then obtain s2 al where
    l1: "for_in_replace Children cm newd s = Some s2" and len2: "length s \<le> length s2" and
    same2: "\<forall>i<length s. i \<noteq> newd \<longrightarrow> s2 ! i = s ! i" and
    cell2: "s2 ! newd = DiagramObject ty al rpa og cs cf" and keys2: "map fst al = map fst rch" and
    kids2: "list_all2 (\<lambda>a c. fst a = fst c \<and> tree_at (length s) (length s2) s2 (snd a) (snd c)) al
          (map (\<lambda>c. (fst c, gc (snd c))) ch)"
    by (auto simp: cell with_entries_def)
  have ag2: "agree lo hi s s2"
    using same2 len2 out by (auto simp: agree_def)
  have "\<exists>s' pl'. for_in_replace Paths pm newd s2 = Some s' \<and> length s2 \<le> length s' \<and>
        (\<forall>i<length s2. i \<noteq> newd \<longrightarrow> s' ! i = s2 ! i) \<and>
        s' ! newd = with_entries Paths pl' (s2 ! newd) \<and> map fst pl' = map fst rpa \<and>
        list_all2 (\<lambda>a p. fst a = fst p \<and> path_at (length s2) (length s') s' (snd a) (snd p)) pl'
          (map (\<lambda>p. (fst p, gp (snd p))) pa)"
  proof (rule for_in_replace_spec[where R = path_at and lo = lo and hi = hi])
    show "\<exists>a' s'. pm s a = Some (a', s') \<and> extends s s' \<and> path_at (length s) (length s') s' a' (gp (snd c))"
      if "path_at lo hi s a (snd c)" for s a c
      using that by (rule pm)
    show "entries Paths s2 newd = Some rpa"
      using r len2 cell2 by (simp add: entries_def entries_of_def)
    show "list_all2 (\<lambda>a c. fst a = fst c \<and> path_at lo hi s2 (snd a) (snd c)) rpa pa"
      by (rule list_all2_mono[OF pths]) (auto intro: path_at_stable ag2)
  qed (use r len2 out hi dist in \<open>auto intro: path_at_stable path_at_widen\<close>)
  then obtain s3 pl where
    l2: "for_in_replace Paths pm newd s2 = Some s3" and len3: "length s2 \<le> length s3" and
    same3: "\<forall>i<length s2. i \<noteq> newd \<longrightarrow> s3 ! i = s2 ! i" and
    cell3: "s3 ! newd = DiagramObject ty al pl og cs cf" and keys3: "map fst pl = map fst rpa" and
    pths3: "list_all2 (\<lambda>a p. fst a = fst p \<and> path_at (length s2) (length s3) s3 (snd a) (snd p)) pl
          (map (\<lambda>p. (fst p, gp (snd p))) pa)"
    by (auto simp: cell2 with_entries_def)
  have ag3: "agree (length s) (length s2) s2 s3"
    using same3 len3 r by (auto simp: agree_def)
  have kids3: "list_all2 (\<lambda>a c. fst a = fst c \<and> tree_at (length s) (length s3) s3 (snd a) (snd c)) al
          (map (\<lambda>c. (fst c, gc (snd c))) ch)"
  proof (rule list_all2_mono[OF kids2], intro conjI)
    fix a c assume ac: "fst a = fst c \<and> tree_at (length s) (length s2) s2 (snd a) (snd c)"
    then show "fst a = fst c" by simp
    from ac have "tree_at (length s) (length s2) s3 (snd a) (snd c)"
      by (auto intro: tree_at_stable ag3)
    then show "tree_at (length s) (length s3) s3 (snd a) (snd c)"
      by (rule tree_at_widen) (use len3 in simp_all)
  qed
  have pths3': "list_all2 (\<lambda>a p. fst a = fst p \<and> path_at (length s) (length s3) s3 (snd a) (snd p)) pl
          (map (\<lambda>p. (fst p, gp (snd p))) pa)"
    by (rule list_all2_mono[OF pths3]) (auto intro: path_at_widen len2)
  have "node (length s) (length s3) s3 newd
        (MkDiagram ty (map (\<lambda>c. (fst c, gc (snd c))) ch) (map (\<lambda>p. (fst p, gp (snd p))) pa) og cs cf)"
    unfolding node_iff using r len2 len3 cell3 keys2 keys3 dist kids3 pths3' by simp
  moreover have "\<forall>i<length s. i \<noteq> newd \<longrightarrow> s3 ! i = s ! i"
    using same2 same3 len2 by auto
  ultimately show ?thesis using l1 l2 len2 len3 by auto
qed

lemma node_update_root:
  assumes nd: "node lo hi s r (MkDiagram ty ch pa og cs cf)"
    and out: "\<not> (lo \<le> r \<and> r < hi)"
    and cell: "s ! r = DiagramObject ty rch rpa og cs cf"
  shows "node lo hi (s[r := DiagramObject ty rch rpa og' cs' cf']) r (MkDiagram ty ch pa og' cs' cf')"
proof -
  let ?s' = "s[r := DiagramObject ty rch rpa og' cs' cf']"
  have ag: "agree lo hi s ?s'" by (rule agree_update[OF out])
  from nd cell have
    r: "r < length s" and
    dist: "distinct (map fst rch)" "distinct (map fst rpa)" and
    kids: "list_all2 (\<lambda>a c. fst a = fst c \<and> tree_at lo hi s (snd a) (snd c)) rch ch" and
    pths: "list_all2 (\<lambda>a p. fst a = fst p \<and> path_at lo hi s (snd a) (snd p)) rpa pa"
    unfolding node_iff by auto
  have "list_all2 (\<lambda>a c. fst a = fst c \<and> tree_at lo hi ?s' (snd a) (snd c)) rch ch"
    by (rule list_all2_mono[OF kids]) (auto intro: tree_at_stable ag)
  moreover have "list_all2 (\<lambda>a p. fst a = fst p \<and> path_at lo hi ?s' (snd a) (snd p)) rpa pa"
    by (rule list_all2_mono[OF pths]) (auto intro: path_at_stable ag)
  ultimately show ?thesis
    unfolding node_iff using r dist by simp
qed

lemma node_cell:
  "node lo hi s r (MkDiagram ty ch pa og cs cf) \<Longrightarrow>
     r < length s \<and> (\<exists>rch rpa. s ! r = DiagramObject ty rch rpa og cs cf)"
  unfolding node_iff by blast

lemma map_entries_id: "(\<And>x. f x = x) \<Longrightarrow> map (\<lambda>c. (fst c, f (snd c))) xs = xs"
  by (induction xs) auto

lemma copy_unfold:
  "JSON_roundtrip d = MkDiagram ty ch pa og cs cf \<Longrightarrow>
     copy d = MkDiagram ty (map (\<lambda>c. (fst c, copy (snd c))) ch)
                (map (\<lambda>p. (fst p, Path_copy (snd p))) pa) og cs cf"
  by (simp add: copy.simps[of d])

lemma translate_copy:
  "copy d = MkDiagram ty ch pa og cs cf \<Longrightarrow>
     translate d v = MkDiagram ty (map (\<lambda>c. (fst c, translate (snd c) v)) ch)
                       (map (\<lambda>p. (fst p, Path_translate (snd p) v)) pa) (Vector2_add og v) cs cf"
  by (simp add: translate.simps[of d])

lemma rotate_copy:
  "copy d = MkDiagram ty ch pa og cs cf \<Longrightarrow>
     rotate d angle pivot =
       MkDiagram ty
         (map (\<lambda>c. (fst c, rotate (snd c) angle (Some (case pivot of None \<Rightarrow> og | Some p \<Rightarrow> p)))) ch)
         (map (\<lambda>p. (fst p, Path_rotate (snd p) angle (case pivot of None \<Rightarrow> og | Some p \<Rightarrow> p))) pa)
         og cs cf"
  by (simp add: rotate.simps[of d] Let_def)

lemma fill_copy:
  "copy d = MkDiagram ty ch pa og cs cf \<Longrightarrow>
     fill d color =
       (case ty of
          Polygon \<Rightarrow> MkDiagram ty ch pa og cs (Some color)
        | Curve \<Rightarrow> MkDiagram ty ch pa og cs cf
        | Diagram \<Rightarrow> MkDiagram ty ch pa og cs cf)"
  by (simp add: fill.simps[of d] split: DiagramType.splits)

lemma stroke_copy:
  "copy d = MkDiagram ty ch pa og cs cf \<Longrightarrow>
     stroke d color =
       (case ty of
          Polygon \<Rightarrow> MkDiagram ty ch pa og (Some color) cf
        | Curve \<Rightarrow> MkDiagram ty ch pa og (Some color) cf
        | Diagram \<Rightarrow> MkDiagram ty ch pa og cs cf)"
  by (simp add: stroke.simps[of d] split: DiagramType.splits)

lemma copy_in_spec:
  "tree_at lo hi s r d \<Longrightarrow> hi \<le> length s \<Longrightarrow> height d < n \<Longrightarrow>
     \<exists>r' s'. copy_in n s r = Some (r', s') \<and> extends s s' \<and> length s \<le> r' \<and> r' < length s' \<and>
       node (Suc r') (length s') s' r' (copy d)"
proof (induction n arbitrary: s r d lo hi)
  case 0
  then show ?case by simp
next
  case (Suc n)
  obtain ty ch pa og cs cf where d: "JSON_roundtrip d = MkDiagram ty ch pa og cs cf"
    by (cases "JSON_roundtrip d")
  have h: "height (MkDiagram ty ch pa og cs cf) < Suc n"
    using Suc.prems(3) unfolding d[symmetric] by simp
  from JSON_clone_spec[OF Suc.prems] obtain newd s1 where
    jc: "JSON_clone (Suc n) s r = Some (newd, s1)" and e1: "extends s s1" and
    lo1: "length s \<le> newd" and top: "Suc newd = length s1" and
    nd: "node (length s) newd s1 newd (MkDiagram ty ch pa og cs cf)"
    unfolding d by blast
  have "\<exists>s2 s3. for_in_replace Children (copy_in n) newd s1 = Some s2 \<and>
      for_in_replace Paths Path_copy_in newd s2 = Some s3 \<and> length s1 \<le> length s3 \<and>
      (\<forall>i<length s1. i \<noteq> newd \<longrightarrow> s3 ! i = s1 ! i) \<and>
      node (length s1) (length s3) s3 newd
        (MkDiagram ty (map (\<lambda>c. (fst c, copy (snd c))) ch)
           (map (\<lambda>p. (fst p, Path_copy (snd p))) pa) og cs cf)"
  proof (rule replace_children_and_paths[OF nd])
    show "\<exists>a' s'. copy_in n s a = Some (a', s') \<and> extends s s' \<and>
            tree_at (length s) (length s') s' a' (copy (snd c))"
      if "c \<in> set ch" "tree_at (length s0) newd s a (snd c)" "newd \<le> length s" for s a c s0
    proof -
      from that(1) h have "height (snd c) < n"
        using height_child[of c ch ty pa og cs cf] by simp
      from Suc.IH[OF that(2,3) this] obtain a' s' where
        "copy_in n s a = Some (a', s')" "extends s s'" "length s \<le> a'" "a' < length s'"
        "node (Suc a') (length s') s' a' (copy (snd c))"
        by blast
      moreover from this have "tree_at (length s) (length s') s' a' (copy (snd c))"
        by (auto simp: tree_at_def intro: node_widen)
      ultimately show ?thesis by auto
    qed
    show "\<exists>a' s'. Path_copy_in s a = Some (a', s') \<and> extends s s' \<and>
            path_at (length s) (length s') s' a' (Path_copy p)"
      if "path_at lo newd s a p" for s a p lo
      using that by (rule Path_copy_in_spec)
  qed (use top in simp_all)
  then obtain s2 s3 where
    l1: "for_in_replace Children (copy_in n) newd s1 = Some s2" and
    l2: "for_in_replace Paths Path_copy_in newd s2 = Some s3" and
    len: "length s1 \<le> length s3" and
    same: "\<forall>i<length s1. i \<noteq> newd \<longrightarrow> s3 ! i = s1 ! i" and
    res: "node (length s1) (length s3) s3 newd (copy d)"
    by (auto simp: copy_unfold[OF d])
  have "copy_in (Suc n) s r = Some (newd, s3)"
    using jc l1 l2 by simp
  moreover have "extends s s3"
    using e1 same len lo1 by (auto simp: extends_def)
  ultimately show ?case using lo1 top len res by auto
qed

lemma translate_in_spec:
  "tree_at lo hi s r d \<Longrightarrow> hi \<le> length s \<Longrightarrow> height d < n \<Longrightarrow>
     \<exists>r' s'. translate_in n v s r = Some (r', s') \<and> extends s s' \<and> length s \<le> r' \<and>
       r' < length s' \<and> node (Suc r') (length s') s' r' (translate d v)"
proof (induction n arbitrary: s r d lo hi)
  case 0
  then show ?case by simp
next
  case (Suc n)
  obtain ty ch pa og cs cf where d: "copy d = MkDiagram ty ch pa og cs cf"
    by (cases "copy d")
  have h: "height (MkDiagram ty ch pa og cs cf) < Suc n"
    using Suc.prems(3) unfolding d[symmetric] by simp
  from copy_in_spec[OF Suc.prems] obtain newd s1 where
    cp: "copy_in (Suc n) s r = Some (newd, s1)" and e1: "extends s s1" and
    lo1: "length s \<le> newd" and top: "newd < length s1" and
    nd: "node (Suc newd) (length s1) s1 newd (MkDiagram ty ch pa og cs cf)"
    unfolding d by blast
  from node_cell[OF nd] obtain rch rpa where
    cell: "s1 ! newd = DiagramObject ty rch rpa og cs cf" by blast
  let ?s1 = "s1[newd := DiagramObject ty rch rpa (Vector2_add og v) cs cf]"
  have og: "origin_in s1 newd = Some og" using top cell by (simp add: origin_in_def)
  have so: "set_origin s1 newd (Vector2_add og v) = ?s1" using cell by (simp add: set_origin_def)
  have nd': "node (Suc newd) (length ?s1) ?s1 newd (MkDiagram ty ch pa (Vector2_add og v) cs cf)"
    using node_update_root[OF nd _ cell] by simp
  have "\<exists>s2 s3. for_in_replace Children (translate_in n v) newd ?s1 = Some s2 \<and>
      for_in_replace Paths (Path_translate_in v) newd s2 = Some s3 \<and> length ?s1 \<le> length s3 \<and>
      (\<forall>i<length ?s1. i \<noteq> newd \<longrightarrow> s3 ! i = ?s1 ! i) \<and>
      node (length ?s1) (length s3) s3 newd
        (MkDiagram ty (map (\<lambda>c. (fst c, translate (snd c) v)) ch)
           (map (\<lambda>p. (fst p, Path_translate (snd p) v)) pa) (Vector2_add og v) cs cf)"
  proof (rule replace_children_and_paths[OF nd'])
    show "\<exists>a' s'. translate_in n v s a = Some (a', s') \<and> extends s s' \<and>
            tree_at (length s) (length s') s' a' (translate (snd c) v)"
      if "c \<in> set ch" "tree_at l h s a (snd c)" "h \<le> length s" for s a c l h
    proof -
      from that(1) h have "height (snd c) < n"
        using height_child[of c ch ty pa og cs cf] by simp
      from Suc.IH[OF that(2,3) this] obtain a' s' where
        "translate_in n v s a = Some (a', s')" "extends s s'" "length s \<le> a'" "a' < length s'"
        "node (Suc a') (length s') s' a' (translate (snd c) v)"
        by blast
      moreover from this have "tree_at (length s) (length s') s' a' (translate (snd c) v)"
        by (auto simp: tree_at_def intro: node_widen)
      ultimately show ?thesis by auto
    qed
    show "\<exists>a' s'. Path_translate_in v s a = Some (a', s') \<and> extends s s' \<and>
            path_at (length s) (length s') s' a' (Path_translate p v)"
      if "path_at l h s a p" for s a p l h
      using that by (rule Path_translate_in_spec)
  qed simp_all
  then obtain s2 s3 where
    l1: "for_in_replace Children (translate_in n v) newd ?s1 = Some s2" and
    l2: "for_in_replace Paths (Path_translate_in v) newd s2 = Some s3" and
    len: "length s1 \<le> length s3" and
    same: "\<forall>i<length s1. i \<noteq> newd \<longrightarrow> s3 ! i = ?s1 ! i" and
    res: "node (length s1) (length s3) s3 newd (translate d v)"
    by (auto simp: translate_copy[OF d])
  have "translate_in (Suc n) v s r = Some (newd, s3)"
    using cp og so l1 l2 by simp
  moreover have "extends s s3"
    using e1 same len lo1 by (auto simp: extends_def)
  moreover have "node (Suc newd) (length s3) s3 newd (translate d v)"
    using res by (rule node_widen) (use top in simp_all)
  ultimately show ?case using lo1 top len by auto
qed

section \<open>The operations in the store\<close>

lemma rotate_in_spec:
  "tree_at lo hi s r d \<Longrightarrow> hi \<le> length s \<Longrightarrow> height d < n \<Longrightarrow>
     \<exists>r' s'. rotate_in n angle pivot s r = Some (r', s') \<and> extends s s' \<and> length s \<le> r' \<and>
       r' < length s' \<and> node (Suc r') (length s') s' r' (rotate d angle pivot)"
proof (induction n arbitrary: s r d lo hi pivot)
  case 0
  then show ?case by simp
next
  case (Suc n)
  obtain ty ch pa og cs cf where d: "copy d = MkDiagram ty ch pa og cs cf"
    by (cases "copy d")
  have h: "height (MkDiagram ty ch pa og cs cf) < Suc n"
    using Suc.prems(3) unfolding d[symmetric] by simp
  from copy_in_spec[OF Suc.prems] obtain newd s1 where
    cp: "copy_in (Suc n) s r = Some (newd, s1)" and e1: "extends s s1" and
    lo1: "length s \<le> newd" and top: "newd < length s1" and
    nd: "node (Suc newd) (length s1) s1 newd (MkDiagram ty ch pa og cs cf)"
    unfolding d by blast
  from node_cell[OF nd] obtain rch rpa where
    cell: "s1 ! newd = DiagramObject ty rch rpa og cs cf" by blast
  have og: "origin_in s1 newd = Some og" using top cell by (simp add: origin_in_def)
  define pivot' where "pivot' = (case pivot of None \<Rightarrow> og | Some p \<Rightarrow> p)"
  have "\<exists>s2 s3. for_in_replace Children (rotate_in n angle (Some pivot')) newd s1 = Some s2 \<and>
      for_in_replace Paths (Path_rotate_in angle pivot') newd s2 = Some s3 \<and> length s1 \<le> length s3 \<and>
      (\<forall>i<length s1. i \<noteq> newd \<longrightarrow> s3 ! i = s1 ! i) \<and>
      node (length s1) (length s3) s3 newd
        (MkDiagram ty (map (\<lambda>c. (fst c, rotate (snd c) angle (Some pivot'))) ch)
           (map (\<lambda>p. (fst p, Path_rotate (snd p) angle pivot')) pa) og cs cf)"
  proof (rule replace_children_and_paths[OF nd])
    show "\<exists>a' s'. rotate_in n angle (Some pivot') s a = Some (a', s') \<and> extends s s' \<and>
            tree_at (length s) (length s') s' a' (rotate (snd c) angle (Some pivot'))"
      if "c \<in> set ch" "tree_at l h s a (snd c)" "h \<le> length s" for s a c l h
    proof -
      from that(1) h have "height (snd c) < n"
        using height_child[of c ch ty pa og cs cf] by simp
      from Suc.IH[OF that(2,3) this, of "Some pivot'"] obtain a' s' where
        "rotate_in n angle (Some pivot') s a = Some (a', s')" "extends s s'" "length s \<le> a'"
        "a' < length s'" "node (Suc a') (length s') s' a' (rotate (snd c) angle (Some pivot'))"
        by blast
      moreover from this
      have "tree_at (length s) (length s') s' a' (rotate (snd c) angle (Some pivot'))"
        by (auto simp: tree_at_def intro: node_widen)
      ultimately show ?thesis by auto
    qed
    show "\<exists>a' s'. Path_rotate_in angle pivot' s a = Some (a', s') \<and> extends s s' \<and>
            path_at (length s) (length s') s' a' (Path_rotate p angle pivot')"
      if "path_at l h s a p" for s a p l h
      using that by (rule Path_rotate_in_spec)
  qed simp_all
  then obtain s2 s3 where
    l1: "for_in_replace Children (rotate_in n angle (Some pivot')) newd s1 = Some s2" and
    l2: "for_in_replace Paths (Path_rotate_in angle pivot') newd s2 = Some s3" and
    len: "length s1 \<le> length s3" and
    same: "\<forall>i<length s1. i \<noteq> newd \<longrightarrow> s3 ! i = s1 ! i" and
    res: "node (length s1) (length s3) s3 newd (rotate d angle pivot)"
    by (auto simp: rotate_copy[OF d] pivot'_def)
  have "rotate_in (Suc n) angle pivot s r = Some (newd, s3)"
    using cp og l1 l2 by (simp add: pivot'_def Let_def)
  moreover have "extends s s3"
    using e1 same len lo1 by (auto simp: extends_def)
  moreover have "node (Suc newd) (length s3) s3 newd (rotate d angle pivot)"
    using res by (rule node_widen) (use top in simp_all)
  ultimately show ?case using lo1 top len by auto
qed

lemma position_in_spec:
  assumes "tree_at lo hi s r d" "hi \<le> length s" "height d < n"
  shows "\<exists>r' s'. position_in n v s r = Some (r', s') \<and> extends s s' \<and> length s \<le> r' \<and>
       r' < length s' \<and> node (Suc r') (length s') s' r' (position d v)"
proof -
  obtain ty ch pa og cs cf where d: "d = MkDiagram ty ch pa og cs cf" by (cases d)
  from assms(1) have "origin_in s r = Some (origin d)"
    using node_cell[of lo hi s r ty ch pa og cs cf] by (auto simp: d tree_at_def origin_in_def)
  then show ?thesis
    using translate_in_spec[OF assms, of "Vector2_sub v (origin d)"]
    by (simp add: position_in_def position_def)
qed

lemma map_of_distinct_mem: "distinct (map fst al) \<Longrightarrow> (k, a) \<in> set al \<Longrightarrow> map_of al k = Some a"
  by simp

lemma call_each_spec:
  assumes meth: "\<And>s a c. c \<in> set pool \<Longrightarrow> tree_at lo hi s a (snd c) \<Longrightarrow> hi \<le> length s \<Longrightarrow>
        \<exists>a' s'. method s a = Some (a', s') \<and> extends s s'"
    and base: "newd < length s0" "hi \<le> length s0"
      "entries Children s0 newd = Some al" "distinct (map fst al)"
  shows "extends s0 s \<Longrightarrow> set todo \<subseteq> set al \<Longrightarrow> set todo_abs \<subseteq> set pool \<Longrightarrow>
     list_all2 (\<lambda>a c. fst a = fst c \<and> tree_at lo hi s0 (snd a) (snd c)) todo todo_abs \<Longrightarrow>
     \<exists>s'. call_each method newd (map fst todo) s = Some s' \<and> extends s s'"
proof (induction todo arbitrary: s todo_abs)
  case Nil
  then show ?case by simp
next
  case (Cons e todo)
  from Cons.prems(4) obtain c rest where
    abs: "todo_abs = c # rest" and Rc: "tree_at lo hi s0 (snd e) (snd c)"
    and rest: "list_all2 (\<lambda>a c. fst a = fst c \<and> tree_at lo hi s0 (snd a) (snd c)) todo rest"
    by (auto simp: list_all2_Cons1)
  have len: "length s0 \<le> length s" using Cons.prems(1) by (simp add: extends_def)
  have "entries Children s newd = Some al"
    using base(1,3) Cons.prems(1) by (auto simp: entries_def extends_def split: if_splits)
  moreover have "map_of al (fst e) = Some (snd e)"
    using Cons.prems(2) base(4) by (intro map_of_distinct_mem) auto
  ultimately have get: "get_entry Children s newd (fst e) = Some (snd e)"
    by (simp add: get_entry_def)
  have "tree_at lo hi s (snd e) (snd c)"
    using Rc extends_agree[OF Cons.prems(1)] by (rule tree_at_stable)
  from meth[OF _ this] abs Cons.prems(3) base(2) len obtain a' s1 where
    m: "method s (snd e) = Some (a', s1)" and ext: "extends s s1"
    by auto
  have "extends s0 s1" using Cons.prems(1) ext by (rule extends_trans)
  from Cons.IH[OF this _ _ rest] Cons.prems(2,3) abs obtain s' where
    "call_each method newd (map fst todo) s1 = Some s'" "extends s1 s'"
    by auto
  with get m ext show ?case by (auto intro: extends_trans)
qed

lemma for_in_call_spec:
  assumes nd: "node lo hi s newd (MkDiagram ty ch pa og cs cf)" and hi: "hi \<le> length s"
    and meth: "\<And>s a c. c \<in> set ch \<Longrightarrow> tree_at lo hi s a (snd c) \<Longrightarrow> hi \<le> length s \<Longrightarrow>
        \<exists>a' s'. method s a = Some (a', s') \<and> extends s s'"
  shows "\<exists>s'. for_in_call method newd s = Some s' \<and> extends s s'"
proof -
  from nd obtain rch rpa where
    r: "newd < length s" and cell: "s ! newd = DiagramObject ty rch rpa og cs cf" and
    dist: "distinct (map fst rch)" and
    kids: "list_all2 (\<lambda>a c. fst a = fst c \<and> tree_at lo hi s (snd a) (snd c)) rch ch"
    unfolding node_iff by blast
  have ent: "entries Children s newd = Some rch"
    using r cell by (simp add: entries_def entries_of_def)
  have "\<exists>s'. call_each method newd (map fst rch) s = Some s' \<and> extends s s'"
  proof (rule call_each_spec[where pool = ch and lo = lo and hi = hi and ?s0.0 = s and al = rch])
    show "\<exists>a' s'. method s a = Some (a', s') \<and> extends s s'"
      if "c \<in> set ch" "tree_at lo hi s a (snd c)" "hi \<le> length s" for s a c
      using that by (rule meth)
  qed (use r hi ent dist kids in simp_all)
  with ent show ?thesis by (simp add: for_in_call_def)
qed

lemma node_extends:
  assumes "node lo hi s r d" "extends s s'" "hi \<le> length s'"
  shows "node lo (length s') s' r d"
proof -
  from assms(1) have r: "r < length s" by (cases d) (simp add: node_iff)
  have "node lo hi s' r d"
    using assms(1) extends_agree[OF assms(2)]
    by (rule node_stable) (use r assms(2) in \<open>auto simp: extends_def\<close>)
  then show ?thesis
    by (rule node_widen) (use assms(3) in simp_all)
qed

lemma fill_in_spec:
  "tree_at lo hi s r d \<Longrightarrow> hi \<le> length s \<Longrightarrow> height d < n \<Longrightarrow>
     \<exists>r' s'. fill_in n color s r = Some (r', s') \<and> extends s s' \<and> length s \<le> r' \<and>
       r' < length s' \<and> node (Suc r') (length s') s' r' (fill d color)"
proof (induction n arbitrary: s r d lo hi)
  case 0
  then show ?case by simp
next
  case (Suc n)
  obtain ty ch pa og cs cf where d: "copy d = MkDiagram ty ch pa og cs cf"
    by (cases "copy d")
  have h: "height (MkDiagram ty ch pa og cs cf) < Suc n"
    using Suc.prems(3) unfolding d[symmetric] by simp
  from copy_in_spec[OF Suc.prems] obtain newd s1 where
    cp: "copy_in (Suc n) s r = Some (newd, s1)" and e1: "extends s s1" and
    lo1: "length s \<le> newd" and top: "newd < length s1" and
    nd: "node (Suc newd) (length s1) s1 newd (MkDiagram ty ch pa og cs cf)"
    unfolding d by blast
  from node_cell[OF nd] obtain rch rpa where
    cell: "s1 ! newd = DiagramObject ty rch rpa og cs cf" by blast
  have ty: "type_in s1 newd = Some ty" using top cell by (simp add: type_in_def)
  show ?case
  proof (cases ty)
    case Polygon
    let ?s2 = "s1[newd := DiagramObject ty rch rpa og cs (Some color)]"
    have "fill_in (Suc n) color s r = Some (newd, ?s2)"
      using cp ty Polygon cell by (simp add: set_color_fill_def)
    moreover have "extends s ?s2"
      using e1 lo1 by (auto simp: extends_def)
    moreover have "node (Suc newd) (length ?s2) ?s2 newd (fill d color)"
      using node_update_root[OF nd _ cell, of og cs "Some color"] Polygon
      by (simp add: fill_copy[OF d])
    ultimately show ?thesis using lo1 top by auto
  next
    case Curve
    have "fill_in (Suc n) color s r = Some (newd, s1)"
      using cp ty Curve by simp
    moreover have "node (Suc newd) (length s1) s1 newd (fill d color)"
      using nd Curve by (simp add: fill_copy[OF d])
    ultimately show ?thesis using e1 lo1 top by auto
  next
    case Diagram
    have "\<exists>s'. for_in_call (fill_in n color) newd s1 = Some s' \<and> extends s1 s'"
    proof (rule for_in_call_spec[OF nd])
      show "\<exists>a' s'. fill_in n color s a = Some (a', s') \<and> extends s s'"
        if "c \<in> set ch" "tree_at l h s a (snd c)" "h \<le> length s" for s a c l h
      proof -
        from that(1) h have "height (snd c) < n"
          using height_child[of c ch ty pa og cs cf] by simp
        from Suc.IH[OF that(2,3) this] show ?thesis by blast
      qed
    qed simp
    then obtain s2 where
      l: "for_in_call (fill_in n color) newd s1 = Some s2" and e2: "extends s1 s2"
      by blast
    have "fill_in (Suc n) color s r = Some (newd, s2)"
      using cp ty Diagram l by simp
    moreover have "extends s s2" using e1 e2 by (rule extends_trans)
    moreover have "node (Suc newd) (length s2) s2 newd (fill d color)"
      using node_extends[OF nd e2] e2 Diagram by (simp add: fill_copy[OF d] extends_def)
    moreover have "newd < length s2" using top e2 by (simp add: extends_def)
    ultimately show ?thesis using lo1 by auto
  qed
qed

lemma stroke_in_spec:
  "tree_at lo hi s r d \<Longrightarrow> hi \<le> length s \<Longrightarrow> height d < n \<Longrightarrow>
     \<exists>r' s'. stroke_in n color s r = Some (r', s') \<and> extends s s' \<and> length s \<le> r' \<and>
       r' < length s' \<and> node (Suc r') (length s') s' r' (stroke d color)"
proof (induction n arbitrary: s r d lo hi)
  case 0
  then show ?case by simp
next
  case (Suc n)
  obtain ty ch pa og cs cf where d: "copy d = MkDiagram ty ch pa og cs cf"
    by (cases "copy d")
  have h: "height (MkDiagram ty ch pa og cs cf) < Suc n"
    using Suc.prems(3) unfolding d[symmetric] by simp
  from copy_in_spec[OF Suc.prems] obtain newd s1 where
    cp: "copy_in (Suc n) s r = Some (newd, s1)" and e1: "extends s s1" and
    lo1: "length s \<le> newd" and top: "newd < length s1" and
    nd: "node (Suc newd) (length s1) s1 newd (MkDiagram ty ch pa og cs cf)"
    unfolding d by blast
  from node_cell[OF nd] obtain rch rpa where
    cell: "s1 ! newd = DiagramObject ty rch rpa og cs cf" by blast
  have ty: "type_in s1 newd = Some ty" using top cell by (simp add: type_in_def)
  let ?s2 = "s1[newd := DiagramObject ty rch rpa og (Some color) cf]"
  have leaf: ?case if "ty = Polygon \<or> ty = Curve"
  proof -
    have "stroke_in (Suc n) color s r = Some (newd, ?s2)"
      using cp ty that cell by (auto simp: set_color_stroke_def)
    moreover have "extends s ?s2"
      using e1 lo1 by (auto simp: extends_def)
    moreover have "node (Suc newd) (length ?s2) ?s2 newd (stroke d color)"
      using node_update_root[OF nd _ cell, of og "Some color" cf] that
      by (auto simp: stroke_copy[OF d])
    ultimately show ?thesis using lo1 top by auto
  qed
  show ?case
  proof (cases ty)
    case Diagram
    have "\<exists>s'. for_in_call (stroke_in n color) newd s1 = Some s' \<and> extends s1 s'"
    proof (rule for_in_call_spec[OF nd])
      show "\<exists>a' s'. stroke_in n color s a = Some (a', s') \<and> extends s s'"
        if "c \<in> set ch" "tree_at l h s a (snd c)" "h \<le> length s" for s a c l h
      proof -
        from that(1) h have "height (snd c) < n"
          using height_child[of c ch ty pa og cs cf] by simp
        from Suc.IH[OF that(2,3) this] show ?thesis by blast
      qed
    qed simp
    then obtain s2 where
      l: "for_in_call (stroke_in n color) newd s1 = Some s2" and e2: "extends s1 s2"
      by blast
    have "stroke_in (Suc n) color s r = Some (newd, s2)"
      using cp ty Diagram l by simp
    moreover have "extends s s2" using e1 e2 by (rule extends_trans)
    moreover have "node (Suc newd) (length s2) s2 newd (stroke d color)"
      using node_extends[OF nd e2] e2 Diagram by (simp add: stroke_copy[OF d] extends_def)
    moreover have "newd < length s2" using top e2 by (simp add: extends_def)
    ultimately show ?thesis using lo1 by auto
  qed (use leaf in simp_all)
qed

lemma extends_take: "extends s s' \<longleftrightarrow> take (length s) s' = s"
  by (auto simp: extends_def list_eq_iff_nth_eq)

lemma result_tree:
  assumes "extends s s'" "length s \<le> r'" "r' < length s'" "node (Suc r') (length s') s' r' d'"
    and "tree_at 0 (length s) s r d"
  shows "take (length s) s' = s \<and> tree_at 0 (length s) s' r d \<and> tree_at (length s) (length s') s' r' d'"
proof -
  have "tree_at 0 (length s) s' r d"
    using assms(5) extends_agree[OF assms(1)] by (rule tree_at_stable)
  moreover have "node (length s) (length s') s' r' d'"
    using assms(4) by (rule node_widen) (use assms(2) in simp_all)
  ultimately show ?thesis
    using assms(1-3) by (simp add: extends_take tree_at_def)
qed

lemma length_grp_store: "length grp_store = 6"
  by (simp add: grp_store_def)

lemma grp_in_store: "tree_at 0 (length grp_store) grp_store 5 grp"
  unfolding length_grp_store
  by (simp add: grp_store_def grp_def tri_def seg_def tree_at_def node.simps path_at_def)

lemma height_grp: "height grp < 3"
  by (simp add: grp_def tri_def seg_def)

lemma include_paths_spec:
  "list_all2 (\<lambda>a p. fst a = fst p \<and> path_at lo hi s (snd a) (snd p)) rpa pa \<Longrightarrow>
     include_paths s rpa e = Some (fold (\<lambda>p. fold include_point (points (snd p))) pa e)"
  by (induction arbitrary: e rule: list_all2_induct) (auto simp: path_at_def points_in_def)

lemma include_children_spec:
  "list_all2 (\<lambda>a c. fst a = fst c \<and> box (snd a) = Some (bounding_box (snd c))) rch ch \<Longrightarrow>
     include_children box rch e = Some (fold (\<lambda>c. include_box (bounding_box (snd c))) ch e)"
  by (induction arbitrary: e rule: list_all2_induct) auto

lemma bounding_box_in_spec:
  "node lo hi s r d \<Longrightarrow> height d < n \<Longrightarrow> bounding_box_in n s r = Some (bounding_box d)"
proof (induction n arbitrary: r d)
  case 0
  then show ?case by simp
next
  case (Suc n)
  obtain ty ch pa og cs cf where d: "d = MkDiagram ty ch pa og cs cf" by (cases d)
  from Suc.prems(1) obtain rch rpa where
    r: "r < length s" and cell: "s ! r = DiagramObject ty rch rpa og cs cf" and
    kids: "list_all2 (\<lambda>a c. fst a = fst c \<and> tree_at lo hi s (snd a) (snd c)) rch ch" and
    pths: "list_all2 (\<lambda>a p. fst a = fst p \<and> path_at lo hi s (snd a) (snd p)) rpa pa"
    unfolding d node_iff by blast
  have "list_all2 (\<lambda>a c. fst a = fst c \<and> bounding_box_in n s (snd a) = Some (bounding_box (snd c))) rch ch"
  proof (rule list.rel_mono_strong[OF kids], intro conjI)
    fix a c assume c: "c \<in> set ch" and ac: "fst a = fst c \<and> tree_at lo hi s (snd a) (snd c)"
    then show "fst a = fst c" by simp
    from c Suc.prems(2) have "height (snd c) < n"
      using height_child[of c ch ty pa og cs cf] by (simp add: d)
    with ac show "bounding_box_in n s (snd a) = Some (bounding_box (snd c))"
      by (intro Suc.IH) (simp_all add: tree_at_def)
  qed
  then have "include_children (bounding_box_in n s) rch e
      = Some (fold (\<lambda>c. include_box (bounding_box (snd c))) ch e)" for e
    by (rule include_children_spec)
  with r cell include_paths_spec[OF pths] show ?case
    by (cases ty) (simp_all add: d)
qed

lemma receiver_unchangedI:
  assumes t: "tree_at 0 (length s) s r d" and h: "height d < n" and e: "extends s s'"
  shows "receiver_unchanged n s r d s'"
proof -
  have t': "tree_at 0 (length s) s' r d"
    using t extends_agree[OF e] by (rule tree_at_stable)
  have "bounding_box_in n s r = Some (bounding_box d)" "bounding_box_in n s' r = Some (bounding_box d)"
    using t t' h by (auto simp: tree_at_def intro: bounding_box_in_spec)
  moreover have "origin_in s' r = origin_in s r"
    using t e by (cases d) (auto simp: tree_at_def node_iff origin_in_def extends_def)
  ultimately show ?thesis
    using t' e by (simp add: receiver_unchanged_def extends_take)
qed

lemma new_tree:
  assumes "length s \<le> r'" "r' < length s'" "node (Suc r') (length s') s' r' d'"
  shows "tree_at (length s) (length s') s' r' d'"
proof -
  have "node (length s) (length s') s' r' d'"
    using assms(3) by (rule node_widen) (use assms(1) in simp_all)
  then show ?thesis using assms(1,2) by (simp add: tree_at_def)
qed

text \<open>
  C1 fails on groups. On a group, \<open>fill\<close> and \<open>stroke\<close> call themselves on every child of the
  copy and drop the trees these calls return; the calls change no object of the copy, so the
  tree returned is a copy of the group with the colours of all descendants as they were. For
  the group \<open>grp\<close>, whose child \<open>a\<close> is a polygon without colours: the tree that \<open>fill\<close> and
  \<open>stroke\<close> return is \<open>grp\<close> again, in the value model and in the store.
\<close>

theorem fill_and_stroke_skip_the_children_of_a_group:
  "fill grp ''red'' = grp \<and> stroke grp ''red'' = grp \<and>
   map_of (children (fill grp ''red'')) ''a'' = Some tri \<and>
   type tri = Polygon \<and> color_fill tri = None \<and> color_stroke tri = None \<and>
   (\<exists>r' s'. fill_in 3 ''red'' grp_store 5 = Some (r', s') \<and>
      tree_at (length grp_store) (length s') s' r' grp) \<and>
   (\<exists>r' s'. stroke_in 3 ''red'' grp_store 5 = Some (r', s') \<and>
      tree_at (length grp_store) (length s') s' r' grp)"
proof -
  have "copy grp = grp"
    by (simp add: copy_JSON_roundtrip grp_def tri_def seg_def V2_def JSON_Vector2_def JSON_Path_def)
  note c = this [unfolded grp_def]
  have f: "fill grp ''red'' = grp" and s: "stroke grp ''red'' = grp"
    unfolding grp_def by (simp_all add: fill_copy[OF c] stroke_copy[OF c])
  have "\<exists>r' s'. fill_in 3 ''red'' grp_store 5 = Some (r', s') \<and>
      tree_at (length grp_store) (length s') s' r' grp"
    using fill_in_spec[OF grp_in_store le_refl height_grp, of "''red''"]
      result_tree[OF _ _ _ _ grp_in_store] unfolding f by blast
  moreover have "\<exists>r' s'. stroke_in 3 ''red'' grp_store 5 = Some (r', s') \<and>
      tree_at (length grp_store) (length s') s' r' grp"
    using stroke_in_spec[OF grp_in_store le_refl height_grp, of "''red''"]
      result_tree[OF _ _ _ _ grp_in_store] unfolding s by blast
  ultimately show ?thesis
    using f s by (simp add: grp_def tri_def)
qed

text \<open>
  C2. Let \<open>r\<close> be the root of a tree \<open>d\<close> in a store \<open>s\<close>. Each of \<open>fill\<close>, \<open>stroke\<close>, \<open>translate\<close>,
  \<open>position\<close> and \<open>rotate\<close>, called on \<open>r\<close> with a recursion depth above the height of \<open>d\<close>, returns
  a reference \<open>r'\<close> and a store \<open>s'\<close> such that: every object of \<open>s\<close> is in \<open>s'\<close> as it was, so \<open>r\<close> is
  still the root of \<open>d\<close>, with the same origin and the same bounding box; and \<open>r'\<close> is the root
  of the tree that the operation computes, made of objects that were not in \<open>s\<close>.
\<close>

theorem operations_leave_the_receiver_unchanged:
  assumes "tree_at 0 (length s) s r d" and "height d < n"
  shows "(\<exists>r' s'. fill_in n color s r = Some (r', s') \<and> receiver_unchanged n s r d s' \<and>
            tree_at (length s) (length s') s' r' (fill d color)) \<and>
         (\<exists>r' s'. stroke_in n color s r = Some (r', s') \<and> receiver_unchanged n s r d s' \<and>
            tree_at (length s) (length s') s' r' (stroke d color)) \<and>
         (\<exists>r' s'. translate_in n v s r = Some (r', s') \<and> receiver_unchanged n s r d s' \<and>
            tree_at (length s) (length s') s' r' (translate d v)) \<and>
         (\<exists>r' s'. position_in n v s r = Some (r', s') \<and> receiver_unchanged n s r d s' \<and>
            tree_at (length s) (length s') s' r' (position d v)) \<and>
         (\<exists>r' s'. rotate_in n angle pivot s r = Some (r', s') \<and> receiver_unchanged n s r d s' \<and>
            tree_at (length s) (length s') s' r' (rotate d angle pivot))"
proof (intro conjI)
  note t = assms(1) and b = le_refl[of "length s"] and n = assms(2)
  note u = receiver_unchangedI[OF t n]
  show "\<exists>r' s'. fill_in n color s r = Some (r', s') \<and> receiver_unchanged n s r d s' \<and>
            tree_at (length s) (length s') s' r' (fill d color)"
    using fill_in_spec[OF t b n, of color] u new_tree by blast
  show "\<exists>r' s'. stroke_in n color s r = Some (r', s') \<and> receiver_unchanged n s r d s' \<and>
            tree_at (length s) (length s') s' r' (stroke d color)"
    using stroke_in_spec[OF t b n, of color] u new_tree by blast
  show "\<exists>r' s'. translate_in n v s r = Some (r', s') \<and> receiver_unchanged n s r d s' \<and>
            tree_at (length s) (length s') s' r' (translate d v)"
    using translate_in_spec[OF t b n, of v] u new_tree by blast
  show "\<exists>r' s'. position_in n v s r = Some (r', s') \<and> receiver_unchanged n s r d s' \<and>
            tree_at (length s) (length s') s' r' (position d v)"
    using position_in_spec[OF t b n, of v] u new_tree by blast
  show "\<exists>r' s'. rotate_in n angle pivot s r = Some (r', s') \<and> receiver_unchanged n s r d s' \<and>
            tree_at (length s) (length s') s' r' (rotate d angle pivot)"
    using rotate_in_spec[OF t b n, of angle pivot] u new_tree by blast
qed

theorem operations_leave_the_receiver_unchanged_witness:
  "tree_at 0 (length grp_store) grp_store 5 grp \<and> height grp < 3 \<and>
   (\<exists>r' s'. fill_in 3 ''red'' grp_store 5 = Some (r', s') \<and>
      receiver_unchanged 3 grp_store 5 grp s' \<and>
      tree_at (length grp_store) (length s') s' r' (fill grp ''red'')) \<and>
   (\<exists>r' s'. translate_in 3 (V2 1 2) grp_store 5 = Some (r', s') \<and>
      receiver_unchanged 3 grp_store 5 grp s' \<and>
      tree_at (length grp_store) (length s') s' r' (translate grp (V2 1 2))) \<and>
   (\<exists>r' s'. rotate_in 3 (Finite 1) None grp_store 5 = Some (r', s') \<and>
      receiver_unchanged 3 grp_store 5 grp s' \<and>
      tree_at (length grp_store) (length s') s' r' (rotate grp (Finite 1) None))"
  using operations_leave_the_receiver_unchanged
      [OF grp_in_store height_grp, of "''red''" "V2 1 2" "Finite 1" None]
    grp_in_store height_grp
  by blast

end
